theory Spec2Isabelle
  imports Main "HOL-Library.AList"
begin

section \<open>Strings, numbers and dates as the scripts use them\<close>

text \<open>
  The scripts are Python.  Strings are modelled as \<open>string\<close> (ASCII text), Python's
  unbounded integers as \<open>int\<close>, counters that only grow from zero as \<open>nat\<close>.
\<close>

definition digit_chars :: "char list" where
  "digit_chars = ''0123456789''"

definition is_digit :: "char \<Rightarrow> bool" where
  "is_digit c = (c \<in> set digit_chars)"

text \<open>\<open>str(n)\<close> for a non-negative integer: its decimal digits, most significant first.\<close>

fun str_nat :: "nat \<Rightarrow> string" where
  "str_nat n = (if n < 10 then [digit_chars ! n] else str_nat (n div 10) @ [digit_chars ! (n mod 10)])"

declare str_nat.simps [simp del]

text \<open>\<open>str(i)\<close> for any integer, as an f-string renders \<open>{msg.id}\<close>.\<close>

definition str_int :: "int \<Rightarrow> string" where
  "str_int i = (if i < 0 then CHR ''-'' # str_nat (nat (- i)) else str_nat (nat i))"

text \<open>\<open>int(s)\<close> on a run of decimal digits, as \<open>int(m.group(1))\<close> reads it.\<close>

definition digit_val :: "char \<Rightarrow> nat" where
  "digit_val c = length (takeWhile (\<lambda>d. d \<noteq> c) digit_chars)"

definition int_of_digits :: "string \<Rightarrow> nat" where
  "int_of_digits s = foldl (\<lambda>acc c. 10 * acc + digit_val c) 0 s"

text \<open>
  \<open>datetime.date\<close>: year, month, day, ordered chronologically; \<open>isoformat()\<close> renders
  \<open>YYYY-MM-DD\<close> with zero padding.
\<close>

datatype date = Date (year: nat) (month: nat) (day: nat)

definition date_less :: "date \<Rightarrow> date \<Rightarrow> bool" where
  "date_less a b =
     (year a < year b \<or> (year a = year b \<and> (month a < month b \<or> (month a = month b \<and> day a < day b))))"

definition date_ge :: "date \<Rightarrow> date \<Rightarrow> bool" where
  "date_ge a b = (\<not> date_less a b)"

definition zfill :: "nat \<Rightarrow> string \<Rightarrow> string" where
  "zfill w s = replicate (w - length s) (CHR ''0'') @ s"

definition isoformat :: "date \<Rightarrow> string" where
  "isoformat d = zfill 4 (str_nat (year d)) @ ''-'' @ zfill 2 (str_nat (month d)) @ ''-'' @ zfill 2 (str_nat (day d))"

section \<open>File names: \<open>sanitize_filename\<close> and \<open>pathlib\<close>\<close>

text \<open>
  \<open>sanitize_filename(name)\<close> is \<open>re.sub(r"[^\w\-_\. ]+", "_", (name or "").strip())\<close>:
  the name is stripped of surrounding whitespace, and every maximal run of characters
  that are neither word characters nor one of \<open>- _ .\<close> and space becomes one underscore.
\<close>

definition is_space :: "char \<Rightarrow> bool" where
  "is_space c = (c \<in> set [CHR '' '', CHR 0x09, CHR 0x0A, CHR 0x0B, CHR 0x0C, CHR 0x0D,
                         CHR 0x1C, CHR 0x1D, CHR 0x1E, CHR 0x1F])"

definition strip :: "string \<Rightarrow> string" where
  "strip s = rev (dropWhile is_space (rev (dropWhile is_space s)))"

definition is_word :: "char \<Rightarrow> bool" where
  "is_word c = (c \<in> set (''abcdefghijklmnopqrstuvwxyz'' @ ''ABCDEFGHIJKLMNOPQRSTUVWXYZ'' @ digit_chars @ ''_''))"

definition kept :: "char \<Rightarrow> bool" where
  "kept c = (is_word c \<or> c \<in> set ''-_. '')"

function sub_runs :: "string \<Rightarrow> string" where
  "sub_runs [] = []"
| "sub_runs (c # cs) =
     (if kept c then c # sub_runs cs
      else CHR ''_'' # sub_runs (dropWhile (\<lambda>x. \<not> kept x) cs))"
  by pat_completeness auto
termination
  by (relation "measure length") (auto simp: le_imp_less_Suc length_dropWhile_le)

definition sanitize_filename :: "string \<Rightarrow> string" where
  "sanitize_filename name = sub_runs (strip name)"

text \<open>
  \<open>Path(p).name\<close> is the last component of \<open>p\<close>; \<open>.suffix\<close> is the part of the name
  from its last dot, provided that dot is neither the first nor the last character of
  the name, and \<open>.stem\<close> is the name without that suffix.
\<close>

definition path_name :: "string \<Rightarrow> string" where
  "path_name p = rev (takeWhile (\<lambda>c. c \<noteq> CHR ''/'') (dropWhile (\<lambda>c. c = CHR ''/'') (rev p)))"

definition rfind_dot :: "string \<Rightarrow> nat option" where
  "rfind_dot name =
     (if CHR ''.'' \<in> set name
      then Some (length name - 1 - length (takeWhile (\<lambda>c. c \<noteq> CHR ''.'') (rev name)))
      else None)"

definition path_suffix :: "string \<Rightarrow> string" where
  "path_suffix p =
     (let name = path_name p in
      case rfind_dot name of
        None \<Rightarrow> []
      | Some i \<Rightarrow> if 0 < i \<and> i < length name - 1 then drop i name else [])"

definition path_stem :: "string \<Rightarrow> string" where
  "path_stem p =
     (let name = path_name p in
      case rfind_dot name of
        None \<Rightarrow> name
      | Some i \<Rightarrow> if 0 < i \<and> i < length name - 1 then take i name else name)"

section \<open>Stored records, the disk and the provider\<close>

text \<open>
  A line of an item log is what \<open>json.loads\<close> makes of it: it raises (\<open>Malformed\<close>) or
  returns a JSON value.  An object keeps its members in order; a repeated key reads as
  its last occurrence, as in Python.
\<close>

datatype json = JNull | JBool bool | JInt int | JStr string | JArr "json list"
  | JObj "(string \<times> json) list"

datatype line = Malformed | Parsed json

definition dict_get :: "(string \<times> json) list \<Rightarrow> string \<Rightarrow> json option" where
  "dict_get kvs k = map_of (rev kvs) k"

text \<open>Exceptions: Telethon's \<open>FloodWaitError\<close> with its \<open>seconds\<close> attribute (if it has
  one), and any other \<open>Exception\<close> with its message.\<close>

datatype exc = FloodWaitError "nat option" | Error string

text \<open>What one call of \<open>client.download_media(message, file=dest)\<close> does: the file is
  saved and its path returned, nothing is saved and \<open>None\<close> returned, or it raises.\<close>

datatype dl_outcome = DlSaved | DlNothing | DlRaise exc

datatype media = Photo | Document "string option" "string option" | OtherMedia string

text \<open>
  A Telethon message, with the fields the scraper reads: \<open>id\<close>, the date part of
  \<open>date\<close> (absent when the message has no timestamp), \<open>message\<close>, the media (for a
  document its \<open>mime_type\<close> and \<open>file_name\<close>).  \<open>dl_script\<close> lists what the successive
  calls of \<open>download_media\<close> on this message do.
\<close>

record message =
  msg_id :: int
  msg_date :: "date option"
  msg_text :: "string option"
  msg_media :: "media option"
  dl_script :: "dl_outcome list"

text \<open>What the message iterator does at each step: it yields a message (or \<open>None\<close>), or
  raises.\<close>

datatype feed_event = Yield "message option" | Raise exc

text \<open>Logger calls and sleeps, in the order they happen.  Sleeps are in milliseconds.\<close>

datatype event =
    Warn_FloodWait nat
  | Warn_DownloadError nat nat string nat
  | Error_DownloadFailed int
  | Info_Downloaded string
  | Warn_ImageFailed int
  | Info_Finished string nat
  | Warn_RunFloodWait nat
  | Exception_Scraping string string
  | Error_Config
  | Info_Connected
  | Error_NoChannels
  | Info_ManifestSaved nat
  | Info_Disconnected
  | Slept nat

record channel_result =
  processed :: nat
  status :: string

record manifest =
  run_id :: nat
  m_channels :: "string list"
  m_limit :: "int option"
  m_incremental :: bool
  m_since :: "string option"
  m_until :: "string option"
  started_at :: nat
  results :: "(string \<times> channel_result) list"
  finished_at :: "nat option"

text \<open>
  The state the scraper works on:
  \<^item> \<open>msg_dir\<close>: the directories under \<open>MSG_DIR\<close>, in \<open>iterdir()\<close> order (entries that are
    not directories are skipped by the loader and left out);
  \<^item> \<open>logs\<close>: the lines of the file \<open>MSG_DIR/<directory>/<file name>\<close>, if it exists;
  \<^item> \<open>images\<close>: the files under \<open>IMG_DIR\<close>, as (channel directory, file name);
  \<^item> \<open>manifests\<close>: the files under \<open>MANIFEST_DIR\<close> (the directory \<open>_manifests\<close> of
    \<open>MSG_DIR\<close>, kept apart from the logs here), by run id;
  \<^item> \<open>clock\<close>: the time in milliseconds (it advances by the sleeps);
  \<^item> \<open>iter_calls\<close>: how many times \<open>client.iter_messages\<close> has been called;
  \<^item> \<open>trace\<close>: the events so far.
  File operations are taken to succeed.
\<close>

record state =
  msg_dir :: "string list"
  logs :: "string \<times> string \<Rightarrow> line list option"
  images :: "(string \<times> string) list"
  manifests :: "nat \<Rightarrow> manifest option"
  clock :: nat
  iter_calls :: nat
  trace :: "event list"

definition emit :: "event \<Rightarrow> state \<Rightarrow> state" where
  "emit e s = s\<lparr>trace := trace s @ [e]\<rparr>"

definition sleep :: "nat \<Rightarrow> state \<Rightarrow> state" where
  "sleep ms s = s\<lparr>clock := clock s + ms, trace := trace s @ [Slept ms]\<rparr>"

definition ensure_path :: "string \<Rightarrow> state \<Rightarrow> state" where
  "ensure_path d s = (if d \<in> set (msg_dir s) then s else s\<lparr>msg_dir := msg_dir s @ [d]\<rparr>)"

definition append_line :: "string \<times> string \<Rightarrow> line \<Rightarrow> state \<Rightarrow> state" where
  "append_line p l s =
     s\<lparr>logs := (logs s)(p \<mapsto> (case logs s p of None \<Rightarrow> [l] | Some ls \<Rightarrow> ls @ [l]))\<rparr>"

section \<open>\<open>message_to_serializable\<close>\<close>

text \<open>
  The record written for a message.  Of the dictionary's members, \<open>id\<close>, \<open>date\<close>,
  \<open>text\<close> and \<open>media\<close> are modelled; the others (\<open>peer_id\<close>, \<open>sender_id\<close>, \<open>views\<close>,
  \<open>forwards\<close>, \<open>reply_to_msg_id\<close>, \<open>is_forward\<close>, \<open>_raw_repr\<close>) are copies of message
  attributes that nothing reads back.  The serialisation is taken to succeed, so the
  \<open>except\<close> branch, which writes the id and an error text, is left out.
\<close>

definition json_opt :: "string option \<Rightarrow> json" where
  "json_opt x = (case x of None \<Rightarrow> JNull | Some v \<Rightarrow> JStr v)"

definition message_to_serializable :: "message \<Rightarrow> json" where
  "message_to_serializable m =
     JObj [(''id'', JInt (msg_id m)),
           (''date'', (case msg_date m of None \<Rightarrow> JNull | Some d \<Rightarrow> JStr (isoformat d))),
           (''text'', json_opt (msg_text m)),
           (''media'',
              (case msg_media m of
                 None \<Rightarrow> JNull
               | Some Photo \<Rightarrow> JObj [(''type'', JStr ''photo'')]
               | Some (Document mime fname) \<Rightarrow>
                   JObj [(''type'', JStr ''document''), (''mime_type'', json_opt mime),
                         (''file_name'', json_opt fname)]
               | Some (OtherMedia tname) \<Rightarrow> JObj [(''type'', JStr tname)]))]"

section \<open>\<open>download_with_retries\<close>\<close>

text \<open>
  The loop runs while \<open>attempt < max_retries\<close>.  Each round calls \<open>download_media\<close>
  once, so it consumes one entry of the message's script.  A script that ends while the
  loop is still running gives \<open>None\<close>: the loop has not returned.
\<close>

text \<open>\<open>int(getattr(fw, "seconds", 60))\<close>.\<close>

definition flood_seconds :: "nat option \<Rightarrow> nat" where
  "flood_seconds secs = (case secs of None \<Rightarrow> 60 | Some n \<Rightarrow> n)"

definition default_max_retries :: nat where
  "default_max_retries = 4"

fun download_with_retries ::
  "dl_outcome list \<Rightarrow> int \<Rightarrow> string \<times> string \<Rightarrow> nat \<Rightarrow> nat \<Rightarrow> state \<Rightarrow> ((string \<times> string) option \<times> state) option"
where
  "download_with_retries [] mid dest max_retries attempt s =
     (if attempt < max_retries then None
      else Some (None, emit (Error_DownloadFailed mid) s))"
| "download_with_retries (r # script) mid dest max_retries attempt s =
     (if attempt < max_retries then
        (case r of
           DlSaved \<Rightarrow> Some (Some dest, s\<lparr>images := images s @ [dest]\<rparr>)
         | DlNothing \<Rightarrow> Some (None, s)
         | DlRaise (FloodWaitError secs) \<Rightarrow>
             (let wait = flood_seconds secs
              in download_with_retries script mid dest max_retries attempt
                   (sleep (1000 * (wait + 1)) (emit (Warn_FloodWait wait) s)))
         | DlRaise (Error e) \<Rightarrow>
             (let attempt' = attempt + 1; wait = 2 ^ attempt'
              in download_with_retries script mid dest max_retries attempt'
                   (sleep (1000 * wait) (emit (Warn_DownloadError attempt' max_retries e wait) s))))
      else Some (None, emit (Error_DownloadFailed mid) s))"

section \<open>The Dedup Index: \<open>load_seen_ids\<close>\<close>

text \<open>
  One line of a log file: a line that does not parse is skipped; so is a value without
  \<open>.get\<close> (anything but an object), since the \<open>AttributeError\<close> is caught.  An \<open>id\<close>
  counts when \<open>isinstance(obj.get("id"), int)\<close>; in Python a boolean is an \<open>int\<close>, and
  \<open>True\<close> and \<open>False\<close> are the set elements 1 and 0.
\<close>

fun seen_add :: "int set \<Rightarrow> line \<Rightarrow> int set" where
  "seen_add seen Malformed = seen"
| "seen_add seen (Parsed (JObj kvs)) =
     (case dict_get kvs ''id'' of
        Some (JInt i) \<Rightarrow> insert i seen
      | Some (JBool b) \<Rightarrow> insert (if b then 1 else 0) seen
      | _ \<Rightarrow> seen)"
| "seen_add seen (Parsed _) = seen"

definition load_seen_ids :: "state \<Rightarrow> string \<Rightarrow> int set" where
  "load_seen_ids s channel =
     (let sanitized = sanitize_filename channel
      in foldl (\<lambda>seen day_dir.
                  case logs s (day_dir, sanitized @ ''.json'') of
                    None \<Rightarrow> seen
                  | Some lns \<Rightarrow> foldl seen_add seen lns)
               {} (msg_dir s))"

section \<open>Media retrieval inside \<open>scrape_channel\<close>\<close>

definition startswith :: "string \<Rightarrow> string \<Rightarrow> bool" where
  "startswith s p = (take (length p) s = p)"

definition is_image :: "message \<Rightarrow> bool" where
  "is_image m =
     (case msg_media m of
        Some Photo \<Rightarrow> True
      | Some (Document mime fname) \<Rightarrow> startswith (case mime of None \<Rightarrow> [] | Some x \<Rightarrow> x) ''image''
      | _ \<Rightarrow> False)"

definition image_ext :: "message \<Rightarrow> string" where
  "image_ext m =
     (case msg_media m of
        Some (Document mime (Some orig)) \<Rightarrow>
          if orig \<noteq> [] \<and> CHR ''.'' \<in> set orig then path_suffix orig else ''.jpg''
      | _ \<Rightarrow> ''.jpg'')"

definition image_fname :: "string \<Rightarrow> int \<Rightarrow> string \<Rightarrow> string \<Rightarrow> string" where
  "image_fname sanitized mid date_str ext = sanitized @ ''_'' @ str_int mid @ ''_'' @ date_str @ ext"

text \<open>The \<open>i\<close>-th replacement name: \<open>f"{Path(fname).stem}_{i}{ext}"\<close>.\<close>

definition candidate :: "string \<Rightarrow> string \<Rightarrow> nat \<Rightarrow> string" where
  "candidate stem ext i = stem @ ''_'' @ str_nat i @ ext"

definition taken_from :: "(string \<times> string) list \<Rightarrow> string \<Rightarrow> string \<Rightarrow> string \<Rightarrow> nat \<Rightarrow> nat set" where
  "taken_from imgs dir stem ext i = {j. i \<le> j \<and> (dir, candidate stem ext j) \<in> set imgs}"

lemma digit_val_nth: "k < 10 \<Longrightarrow> digit_val (digit_chars ! k) = k"
proof -
  assume "k < 10"
  then have "k \<in> {0,1,2,3,4,5,6,7,8,9}" by auto
  then show ?thesis
    by (auto simp: digit_val_def digit_chars_def)
qed

lemma int_of_digits_snoc: "int_of_digits (s @ [c]) = 10 * int_of_digits s + digit_val c"
  by (simp add: int_of_digits_def)

lemma int_of_digits_str_nat: "int_of_digits (str_nat n) = n"
proof (induction n rule: str_nat.induct)
  case (1 n)
  show ?case
  proof (cases "n < 10")
    case True
    then have "str_nat n = [digit_chars ! n]" by (simp add: str_nat.simps)
    with True show ?thesis by (simp add: int_of_digits_def digit_val_nth)
  next
    case False
    then have "str_nat n = str_nat (n div 10) @ [digit_chars ! (n mod 10)]"
      by (subst str_nat.simps) simp
    with False "1.IH" show ?thesis
      by (simp add: int_of_digits_snoc digit_val_nth)
  qed
qed

lemma inj_str_nat: "inj str_nat"
  by (rule inj_on_inverseI [where g = int_of_digits]) (rule int_of_digits_str_nat)

lemma inj_candidate: "inj (candidate stem ext)"
  using inj_str_nat by (auto simp: inj_def candidate_def)

lemma finite_taken_from: "finite (taken_from imgs dir stem ext i)"
proof -
  have "inj (\<lambda>j. (dir, candidate stem ext j))"
    using inj_candidate [of stem ext] by (auto simp: inj_def)
  then have "finite ((\<lambda>j. (dir, candidate stem ext j)) -` set imgs)"
    by (intro finite_vimageI) simp_all
  moreover have "taken_from imgs dir stem ext i \<subseteq> (\<lambda>j. (dir, candidate stem ext j)) -` set imgs"
    by (auto simp: taken_from_def)
  ultimately show ?thesis by (rule rev_finite_subset)
qed

lemma taken_from_step:
  "taken_from imgs dir stem ext i =
     (if (dir, candidate stem ext i) \<in> set imgs
      then insert i (taken_from imgs dir stem ext (Suc i))
      else taken_from imgs dir stem ext (Suc i))"
  by (auto simp: taken_from_def le_Suc_eq Suc_le_eq le_less)

lemma card_taken_from_step:
  "card (taken_from imgs dir stem ext i) =
     (if (dir, candidate stem ext i) \<in> set imgs then 1 else 0) + card (taken_from imgs dir stem ext (Suc i))"
proof -
  have "i \<notin> taken_from imgs dir stem ext (Suc i)" by (simp add: taken_from_def)
  then show ?thesis
    by (subst taken_from_step) (simp add: finite_taken_from)
qed

text \<open>
  The collision loop, \<open>while dest.exists(): dest = ...; i += 1\<close>.  It ends because the
  replacement names differ from one another and the directory holds finitely many files.
\<close>

function free_dest :: "(string \<times> string) list \<Rightarrow> string \<Rightarrow> string \<Rightarrow> string \<Rightarrow> string \<Rightarrow> nat \<Rightarrow> string" where
  "free_dest imgs dir stem ext dest i =
     (if (dir, dest) \<in> set imgs then free_dest imgs dir stem ext (candidate stem ext i) (i + 1)
      else dest)"
  by pat_completeness auto
termination
proof (relation "measure (\<lambda>(imgs, dir, stem, ext, dest, i).
          (if (dir, dest) \<in> set imgs then 1 else 0) + card (taken_from imgs dir stem ext i))")
  show "wf (measure (\<lambda>(imgs, dir, stem, ext, dest, i).
          (if (dir, dest) \<in> set imgs then 1 else 0) + card (taken_from imgs dir stem ext i)))"
    by simp
next
  fix imgs :: "(string \<times> string) list" and dir stem ext dest :: string and i :: nat
  assume "(dir, dest) \<in> set imgs"
  then show "((imgs, dir, stem, ext, candidate stem ext i, i + 1), (imgs, dir, stem, ext, dest, i))
      \<in> measure (\<lambda>(imgs, dir, stem, ext, dest, i).
          (if (dir, dest) \<in> set imgs then 1 else 0) + card (taken_from imgs dir stem ext i))"
    using card_taken_from_step [of imgs dir stem ext i] by simp
qed

declare free_dest.simps [simp del]

text \<open>Lines 186 to 201: the destination, the download, the log line.\<close>

definition image_dest :: "state \<Rightarrow> string \<Rightarrow> message \<Rightarrow> string \<Rightarrow> string" where
  "image_dest s sanitized m date_str =
     (let ext = image_ext m;
          fname = image_fname sanitized (msg_id m) date_str ext
      in free_dest (images s) sanitized (path_stem fname) ext fname 1)"

definition fetch_image :: "string \<Rightarrow> message \<Rightarrow> string \<Rightarrow> state \<Rightarrow> state option" where
  "fetch_image sanitized m date_str s =
     (let dest = image_dest s sanitized m date_str
      in case download_with_retries (dl_script m) (msg_id m) (sanitized, dest) default_max_retries 0 s of
           None \<Rightarrow> None
         | Some (Some downloaded, s') \<Rightarrow> Some (emit (Info_Downloaded (snd downloaded)) s')
         | Some (None, s') \<Rightarrow> Some (emit (Warn_ImageFailed (msg_id m)) s'))"

section \<open>\<open>scrape_channel\<close>\<close>

text \<open>Lines 168 to 201: the record is appended to the day's log, then the image, if
  any, is fetched.\<close>

definition persist_item :: "string \<Rightarrow> message \<Rightarrow> date \<Rightarrow> state \<Rightarrow> state option" where
  "persist_item sanitized msg d s =
     (let date_str = isoformat d;
          s1 = ensure_path date_str s;
          s2 = append_line (date_str, sanitized @ ''.json'') (Parsed (message_to_serializable msg)) s1
      in if is_image msg then fetch_image sanitized msg date_str s2 else Some s2)"

text \<open>
  \<open>msg.date.date() if msg.date else date.today()\<close>, and the two date tests
  \<open>since and msg_date < since\<close>, \<open>until and msg_date >= until\<close>.
\<close>

definition item_date :: "date \<Rightarrow> message \<Rightarrow> date" where
  "item_date today msg = (case msg_date msg of Some md \<Rightarrow> md | None \<Rightarrow> today)"

definition before_since :: "date option \<Rightarrow> date \<Rightarrow> bool" where
  "before_since since d = (case since of Some sd \<Rightarrow> date_less d sd | None \<Rightarrow> False)"

definition from_until :: "date option \<Rightarrow> date \<Rightarrow> bool" where
  "from_until until d = (case until of Some ud \<Rightarrow> date_ge d ud | None \<Rightarrow> False)"

text \<open>
  The loop over the feed.  An exception of the iterator leaves the function; \<open>break\<close>
  returns the count; \<open>continue\<close> goes to the next event.
\<close>

fun scan_loop ::
  "string \<Rightarrow> int set \<Rightarrow> date option \<Rightarrow> date option \<Rightarrow> date \<Rightarrow> feed_event list \<Rightarrow> nat \<Rightarrow> state
     \<Rightarrow> ((exc + nat) \<times> state) option"
where
  "scan_loop sanitized seen_ids since until today [] count s = Some (Inr count, s)"
| "scan_loop sanitized seen_ids since until today (Raise e # feed) count s = Some (Inl e, s)"
| "scan_loop sanitized seen_ids since until today (Yield None # feed) count s =
     scan_loop sanitized seen_ids since until today feed count s"
| "scan_loop sanitized seen_ids since until today (Yield (Some msg) # feed) count s =
     (if msg_id msg \<in> seen_ids then scan_loop sanitized seen_ids since until today feed count s
      else if before_since since (item_date today msg) then Some (Inr count, s)
      else if from_until until (item_date today msg)
      then scan_loop sanitized seen_ids since until today feed count s
      else
        (case persist_item sanitized msg (item_date today msg) s of
           None \<Rightarrow> None
         | Some s1 \<Rightarrow>
             scan_loop sanitized seen_ids since until today feed (count + 1)
               (if (count + 1) mod 50 = 0 then sleep 300 s1 else s1)))"

text \<open>
  \<open>client.iter_messages(channel, limit=limit)\<close>: the provider's feed for this call, cut
  after \<open>limit\<close> messages (a negative limit counts as zero, no limit is the whole feed).
\<close>

fun take_yields :: "nat \<Rightarrow> feed_event list \<Rightarrow> feed_event list" where
  "take_yields n [] = []"
| "take_yields n (ev # feed) =
     (if n = 0 then []
      else case ev of Yield m \<Rightarrow> Yield m # take_yields (n - 1) feed | Raise e \<Rightarrow> [Raise e])"

definition iter_messages :: "feed_event list \<Rightarrow> int option \<Rightarrow> feed_event list" where
  "iter_messages feed limit = (case limit of None \<Rightarrow> feed | Some l \<Rightarrow> take_yields (nat l) feed)"

text \<open>
  The environment of a run: the credentials; what \<open>datetime.strptime(s, "%Y-%m-%d").date()\<close>
  gives for a string (\<open>None\<close> where it raises \<open>ValueError\<close>); the exception that
  \<open>client.start()\<close> and \<open>client.disconnect()\<close> raise, if any; the lines of the files a
  channels file name may denote; the provider (the feed it serves at the \<open>n\<close>-th call of
  \<open>iter_messages\<close>, for a channel); and \<open>date.today()\<close>.
\<close>

record env =
  api_id :: int
  api_hash :: string
  strptime :: "string \<Rightarrow> date option"
  client_start :: "exc option"
  client_disconnect :: "exc option"
  file_lines :: "string \<Rightarrow> string list option"
  provider :: "nat \<Rightarrow> string \<Rightarrow> feed_event list"
  date_today :: date

definition scrape_channel ::
  "env \<Rightarrow> string \<Rightarrow> int option \<Rightarrow> bool \<Rightarrow> date option \<Rightarrow> date option \<Rightarrow> state \<Rightarrow> ((exc + nat) \<times> state) option"
where
  "scrape_channel e channel limit incremental since until s =
     (let sanitized = sanitize_filename channel;
          seen_ids = (if incremental then load_seen_ids s channel else {});
          feed = iter_messages (provider e (iter_calls s) channel) limit
      in case scan_loop sanitized seen_ids since until (date_today e) feed 0 (s\<lparr>iter_calls := iter_calls s + 1\<rparr>) of
           None \<Rightarrow> None
         | Some (Inl ex, s1) \<Rightarrow> Some (Inl ex, s1)
         | Some (Inr count, s1) \<Rightarrow> Some (Inr count, emit (Info_Finished channel count) s1))"

section \<open>\<open>main\<close>\<close>

record args =
  args_channels_file :: string
  args_channels :: "string list"
  args_limit :: "int option"
  args_incremental :: bool
  args_since :: "string option"
  args_until :: "string option"

text \<open>\<open>list(dict.fromkeys(channels))\<close>: first occurrences, in order.\<close>

definition fromkeys :: "string list \<Rightarrow> string list" where
  "fromkeys xs = foldl (\<lambda>acc x. if x \<in> set acc then acc else acc @ [x]) [] xs"

definition read_channels :: "env \<Rightarrow> args \<Rightarrow> string list" where
  "read_channels e a =
     (let from_file =
            (if args_channels_file a \<noteq> []
             then (case file_lines e (args_channels_file a) of
                     None \<Rightarrow> []
                   | Some lns \<Rightarrow> filter (\<lambda>ln. ln \<noteq> [] \<and> \<not> startswith ln ''#'') (map strip lns))
             else [])
      in fromkeys (from_file @ args_channels a))"

definition set_result :: "string \<Rightarrow> nat \<Rightarrow> string \<Rightarrow> manifest \<Rightarrow> manifest" where
  "set_result ch n st m = m\<lparr>results := AList.update ch \<lparr>processed = n, status = st\<rparr> (results m)\<rparr>"

text \<open>
  The loop over the channels (lines 251 to 269).  A \<open>FloodWaitError\<close> of the scan is
  slept out and the channel scanned again, inside the handler: what that second scan
  raises is not caught and leaves the loop.
\<close>

fun run_channels ::
  "env \<Rightarrow> args \<Rightarrow> date option \<Rightarrow> date option \<Rightarrow> string list \<Rightarrow> manifest \<Rightarrow> state
     \<Rightarrow> ((exc + manifest) \<times> state) option"
where
  "run_channels e a since_date until_date [] m s = Some (Inr m, s)"
| "run_channels e a since_date until_date (ch # chs) m s =
     (case scrape_channel e ch (args_limit a) (args_incremental a) since_date until_date s of
        None \<Rightarrow> None
      | Some (Inr n, s1) \<Rightarrow> run_channels e a since_date until_date chs (set_result ch n ''ok'' m) s1
      | Some (Inl (FloodWaitError secs), s1) \<Rightarrow>
          (let wait = flood_seconds secs + 1;
               s2 = sleep (1000 * wait) (emit (Warn_RunFloodWait wait) s1)
           in case scrape_channel e ch (args_limit a) (args_incremental a) since_date until_date s2 of
                None \<Rightarrow> None
              | Some (Inr n, s3) \<Rightarrow>
                  run_channels e a since_date until_date chs (set_result ch n ''ok_after_wait'' m) s3
              | Some (Inl ex, s3) \<Rightarrow> Some (Inl ex, s3))
      | Some (Inl (Error msg), s1) \<Rightarrow>
          run_channels e a since_date until_date chs (set_result ch 0 (''error:'' @ msg) m)
            (emit (Exception_Scraping ch msg) s1))"

text \<open>
  \<open>datetime.strptime(args.since, "%Y-%m-%d").date() if args.since else None\<close>: no
  argument, or an empty one, is no bound; a string that does not parse raises
  \<open>ValueError\<close>.
\<close>

definition parse_date_arg :: "env \<Rightarrow> string option \<Rightarrow> exc + date option" where
  "parse_date_arg e x =
     (case x of
        None \<Rightarrow> Inr None
      | Some str \<Rightarrow>
          if str = [] then Inr None
          else (case strptime e str of None \<Rightarrow> Inl (Error ''ValueError'') | Some d \<Rightarrow> Inr (Some d)))"

text \<open>
  How \<open>main\<close> ends: \<open>sys.exit(1)\<close>, a normal return, or an exception nobody caught.
  The run id stands for the second of the clock that \<open>strftime\<close> renders, and the
  timestamps for the clock itself.
\<close>

datatype ending = SystemExit nat | Returned | Uncaught exc

definition main :: "env \<Rightarrow> args \<Rightarrow> state \<Rightarrow> (ending \<times> state) option" where
  "main e a s =
     (if api_id e = 0 \<or> api_hash e = [] then Some (SystemExit 1, emit Error_Config s)
      else
        case parse_date_arg e (args_since a) of
          Inl ex \<Rightarrow> Some (Uncaught ex, s)
        | Inr since_date \<Rightarrow>
        (case parse_date_arg e (args_until a) of
           Inl ex \<Rightarrow> Some (Uncaught ex, s)
         | Inr until_date \<Rightarrow>
         (case client_start e of
            Some ex \<Rightarrow> Some (Uncaught ex, s)
          | None \<Rightarrow>
            let s0 = emit Info_Connected s;
                chs = read_channels e a in
            if chs = [] then Some (Returned, emit Error_NoChannels s0)
            else
              let rid = clock s0 div 1000;
                  m0 = \<lparr>run_id = rid, m_channels = chs, m_limit = args_limit a,
                        m_incremental = args_incremental a, m_since = args_since a, m_until = args_until a,
                        started_at = clock s0, results = [], finished_at = None\<rparr>
              in case run_channels e a since_date until_date chs m0 s0 of
                   None \<Rightarrow> None
                 | Some (Inl ex, s1) \<Rightarrow> Some (Uncaught ex, s1)
                 | Some (Inr m, s1) \<Rightarrow>
                     (let s2 = emit (Info_ManifestSaved rid)
                                 (s1\<lparr>manifests := (manifests s1)(rid \<mapsto> m\<lparr>finished_at := Some (clock s1)\<rparr>)\<rparr>)
                      in case client_disconnect e of
                           Some ex \<Rightarrow> Some (Uncaught ex, s2)
                         | None \<Rightarrow> Some (Returned, emit Info_Disconnected s2)))))"

section \<open>The enrichment script reads the item id back\<close>

text \<open>
  \<open>re.search(r"(\d+)", img_path.stem)\<close> and \<open>int(m.group(1)) if m else None\<close>: the first
  maximal run of digits of the stem, as a number.
\<close>

definition first_digit_run :: "string \<Rightarrow> string" where
  "first_digit_run s = takeWhile is_digit (dropWhile (\<lambda>c. \<not> is_digit c) s)"

definition extract_message_id :: "string \<Rightarrow> nat option" where
  "extract_message_id fname =
     (let run = first_digit_run (path_stem fname)
      in if run = [] then None else Some (int_of_digits run))"

section \<open>What a scan persists\<close>

text \<open>The lines of a log file, none if the file does not exist.\<close>

definition log_of :: "state \<Rightarrow> string \<Rightarrow> string \<Rightarrow> line list" where
  "log_of s dname file = (case logs s (dname, file) of None \<Rightarrow> [] | Some ls \<Rightarrow> ls)"

text \<open>
  The messages a pass over a feed gets to persist, in feed order: those the loop reaches
  before an exception or the \<open>break\<close> and that pass the three tests.
\<close>

fun selected :: "int set \<Rightarrow> date option \<Rightarrow> date option \<Rightarrow> date \<Rightarrow> feed_event list \<Rightarrow> message list" where
  "selected seen_ids since until today [] = []"
| "selected seen_ids since until today (Raise e # feed) = []"
| "selected seen_ids since until today (Yield None # feed) = selected seen_ids since until today feed"
| "selected seen_ids since until today (Yield (Some msg) # feed) =
     (if msg_id msg \<in> seen_ids then selected seen_ids since until today feed
      else if before_since since (item_date today msg) then []
      else if from_until until (item_date today msg) then selected seen_ids since until today feed
      else msg # selected seen_ids since until today feed)"

text \<open>The lines these messages make in the log of the directory \<open>dname\<close>.\<close>

definition day_lines :: "date \<Rightarrow> string \<Rightarrow> message list \<Rightarrow> line list" where
  "day_lines today dname ms =
     map (\<lambda>m. Parsed (message_to_serializable m)) (filter (\<lambda>m. isoformat (item_date today m) = dname) ms)"

text \<open>The exception the loop meets in the feed, if it gets that far.\<close>

fun raised :: "int set \<Rightarrow> date option \<Rightarrow> date \<Rightarrow> feed_event list \<Rightarrow> exc option" where
  "raised seen_ids since today [] = None"
| "raised seen_ids since today (Raise e # feed) = Some e"
| "raised seen_ids since today (Yield None # feed) = raised seen_ids since today feed"
| "raised seen_ids since today (Yield (Some msg) # feed) =
     (if msg_id msg \<in> seen_ids then raised seen_ids since today feed
      else if before_since since (item_date today msg) then None
      else raised seen_ids since today feed)"

text \<open>
  Whether a download script lets the retry loop return: it answers before it ends, or
  it holds enough generic failures to use the attempts up.
\<close>

fun settles :: "dl_outcome list \<Rightarrow> nat \<Rightarrow> nat \<Rightarrow> bool" where
  "settles [] max_retries attempt = (\<not> attempt < max_retries)"
| "settles (r # script) max_retries attempt =
     (if attempt < max_retries then
        (case r of
           DlSaved \<Rightarrow> True
         | DlNothing \<Rightarrow> True
         | DlRaise (FloodWaitError secs) \<Rightarrow> settles script max_retries attempt
         | DlRaise (Error e) \<Rightarrow> settles script max_retries (attempt + 1))
      else True)"

definition scan_result :: "exc option \<Rightarrow> nat \<Rightarrow> exc + nat" where
  "scan_result ex n = (case ex of Some e \<Rightarrow> Inl e | None \<Rightarrow> Inr n)"

text \<open>A message whose image, if it has one, is settled by its script.\<close>

definition fetchable :: "message \<Rightarrow> bool" where
  "fetchable m = (is_image m \<longrightarrow> settles (dl_script m) default_max_retries 0)"

section \<open>Auxiliary notions and the scenarios of the specification\<close>



text \<open>The state after a run of rate-limit waits: each is logged and slept out, for the
  signalled seconds and one more.\<close>

definition flood_waits :: "nat option list \<Rightarrow> state \<Rightarrow> state" where
  "flood_waits ws s =
     foldl (\<lambda>s1 w. sleep (1000 * (flood_seconds w + 1)) (emit (Warn_FloodWait (flood_seconds w)) s1)) s ws"

text \<open>The generic failures in a trace: the attempt number and the delay of each.\<close>

fun backoffs :: "event list \<Rightarrow> (nat \<times> nat) list" where
  "backoffs [] = []"
| "backoffs (Warn_DownloadError attempt mx e wait # evs) = (attempt, wait) # backoffs evs"
| "backoffs (ev # evs) = backoffs evs"

text \<open>A fresh disk, and a download that meets two rate limits and two failures before it
  succeeds.\<close>

definition empty_state :: state where
  "empty_state = \<lparr>msg_dir = [], logs = (\<lambda>p. None), images = [], manifests = (\<lambda>n. None),
      clock = 0, iter_calls = 0, trace = []\<rparr>"

definition retry_script :: "dl_outcome list" where
  "retry_script = [DlRaise (FloodWaitError (Some 5)), DlRaise (Error ''timeout''),
      DlRaise (FloodWaitError None), DlRaise (Error ''reset''), DlSaved]"

definition retry_final :: state where
  "retry_final = \<lparr>msg_dir = [], logs = (\<lambda>p. None), images = [(''ch1'', ''ch1_7_2025-06-01.jpg'')],
      manifests = (\<lambda>n. None), clock = 73000, iter_calls = 0,
      trace = [Warn_FloodWait 5, Slept 6000, Warn_DownloadError 1 4 ''timeout'' 2, Slept 2000,
               Warn_FloodWait 60, Slept 61000, Warn_DownloadError 2 4 ''reset'' 4, Slept 4000]\<rparr>"

text \<open>Feed events that are messages, and those the Dedup Index makes the loop skip.\<close>

fun is_yield :: "feed_event \<Rightarrow> bool" where
  "is_yield (Yield m) = True"
| "is_yield (Raise e) = False"

fun dedup_skipped :: "int set \<Rightarrow> feed_event \<Rightarrow> bool" where
  "dedup_skipped seen_ids (Yield (Some m)) = (msg_id m \<in> seen_ids)"
| "dedup_skipped seen_ids ev = False"

text \<open>The log lines of a list of messages.\<close>

definition log_lines :: "message list \<Rightarrow> line list" where
  "log_lines ms = map (\<lambda>m. Parsed (message_to_serializable m)) ms"

text \<open>A message without media, and an environment around a provider: the client
  connects, there is no channels file, and of the strings the scenarios pass as dates
  \<open>2025-06-01\<close> and \<open>2025-07-01\<close> parse.\<close>

definition text_msg :: "int \<Rightarrow> date option \<Rightarrow> message" where
  "text_msg i d = \<lparr>msg_id = i, msg_date = d, msg_text = Some ''post'', msg_media = None, dl_script = []\<rparr>"

definition env_with :: "(nat \<Rightarrow> string \<Rightarrow> feed_event list) \<Rightarrow> env" where
  "env_with p = \<lparr>api_id = 12345, api_hash = ''0123abcd'',
      strptime = map_of [(''2025-06-01'', Date 2025 6 1), (''2025-07-01'', Date 2025 7 1)],
      client_start = None, client_disconnect = None, file_lines = (\<lambda>f. None), provider = p,
      date_today = Date 2025 6 15\<rparr>"

text \<open>
  Scenario B of the specification: \<open>since\<close> is 2025-06-01 and the feed yields items dated
  06-10, 06-05, 05-20, 06-01, in that order.  The two states are the disk after the loop
  and after \<open>scrape_channel\<close>.
\<close>

definition scenario_B_pre :: "feed_event list" where
  "scenario_B_pre = [Yield (Some (text_msg 4 (Some (Date 2025 6 10)))),
                     Yield (Some (text_msg 3 (Some (Date 2025 6 5))))]"

definition scenario_B_feed :: "feed_event list" where
  "scenario_B_feed = scenario_B_pre @ Yield (Some (text_msg 2 (Some (Date 2025 5 20))))
                       # [Yield (Some (text_msg 1 (Some (Date 2025 6 1))))]"

definition scenario_B_env :: env where
  "scenario_B_env = env_with (\<lambda>n ch. scenario_B_feed)"

definition scenario_B_scanned :: state where
  "scenario_B_scanned =
     \<lparr>msg_dir = [''2025-06-10'', ''2025-06-05''],
      logs = (Map.empty((''2025-06-10'', ''feed_b.json'') \<mapsto> log_lines [text_msg 4 (Some (Date 2025 6 10))],
                 (''2025-06-05'', ''feed_b.json'') \<mapsto> log_lines [text_msg 3 (Some (Date 2025 6 5))])),
      images = [], manifests = (\<lambda>n. None), clock = 0, iter_calls = 0, trace = []\<rparr>"

definition scenario_B_final :: state where
  "scenario_B_final = scenario_B_scanned\<lparr>iter_calls := 1, trace := [Info_Finished ''feed_b'' 2]\<rparr>"

text \<open>
  Scenario A of the specification: the channel \<open>news_x\<close> has the items 1, 2, 3 in its log
  and the feed yields 5, 4, 3, 2, 1.
\<close>

definition scenario_A_feed :: "feed_event list" where
  "scenario_A_feed = [Yield (Some (text_msg 5 (Some (Date 2025 6 2)))),
                      Yield (Some (text_msg 4 (Some (Date 2025 6 2)))),
                      Yield (Some (text_msg 3 (Some (Date 2025 5 30)))),
                      Yield (Some (text_msg 2 (Some (Date 2025 5 30)))),
                      Yield (Some (text_msg 1 (Some (Date 2025 5 30))))]"

definition scenario_A_env :: env where
  "scenario_A_env = env_with (\<lambda>n ch. scenario_A_feed)"



text \<open>The same feed for a disk that already holds the items 5, 4 and 3.\<close>

definition capped_state :: state where
  "capped_state =
     \<lparr>msg_dir = [''2025-06-02'', ''2025-05-30''],
      logs = Map.empty((''2025-06-02'', ''news_x.json'') \<mapsto>
                log_lines [text_msg 5 (Some (Date 2025 6 2)), text_msg 4 (Some (Date 2025 6 2))],
              (''2025-05-30'', ''news_x.json'') \<mapsto> log_lines [text_msg 3 (Some (Date 2025 5 30))]),
      images = [], manifests = (\<lambda>n. None), clock = 0, iter_calls = 0, trace = []\<rparr>"

definition capped_final :: state where
  "capped_final = capped_state\<lparr>iter_calls := 1, trace := [Info_Finished ''news_x'' 0]\<rparr>"

definition uncapped_final :: state where
  "uncapped_final =
     \<lparr>msg_dir = [''2025-06-02'', ''2025-05-30''],
      logs = Map.empty((''2025-06-02'', ''news_x.json'') \<mapsto>
                log_lines [text_msg 5 (Some (Date 2025 6 2)), text_msg 4 (Some (Date 2025 6 2))],
              (''2025-05-30'', ''news_x.json'') \<mapsto>
                log_lines [text_msg 3 (Some (Date 2025 5 30)), text_msg 2 (Some (Date 2025 5 30)),
                           text_msg 1 (Some (Date 2025 5 30))]),
      images = [], manifests = (\<lambda>n. None), clock = 0, iter_calls = 1,
      trace = [Info_Finished ''news_x'' 2]\<rparr>"


text \<open>Download outcomes that raise, and those that raise a generic failure.\<close>

fun is_raise :: "dl_outcome \<Rightarrow> bool" where
  "is_raise (DlRaise ex) = True"
| "is_raise r = False"

fun is_generic :: "dl_outcome \<Rightarrow> bool" where
  "is_generic (DlRaise (Error e)) = True"
| "is_generic r = False"

text \<open>A photo whose download fails four times, followed by a text message; and a message
  without timestamp.\<close>

definition photo_msg :: "int \<Rightarrow> date option \<Rightarrow> dl_outcome list \<Rightarrow> message" where
  "photo_msg i d script = \<lparr>msg_id = i, msg_date = d, msg_text = None, msg_media = Some Photo, dl_script = script\<rparr>"

definition failing_script :: "dl_outcome list" where
  "failing_script = [DlRaise (Error ''timeout''), DlRaise (Error ''timeout''), DlRaise (Error ''reset''),
                     DlRaise (Error ''timeout'')]"

definition failing_feed :: "feed_event list" where
  "failing_feed = [Yield (Some (photo_msg 7 (Some (Date 2025 6 3)) failing_script)),
                   Yield (Some (text_msg 6 (Some (Date 2025 6 3))))]"

definition failing_final :: state where
  "failing_final =
     \<lparr>msg_dir = [''2025-06-03''],
      logs = Map.empty((''2025-06-03'', ''ch1.json'') \<mapsto>
                log_lines [photo_msg 7 (Some (Date 2025 6 3)) failing_script, text_msg 6 (Some (Date 2025 6 3))]),
      images = [], manifests = (\<lambda>n. None), clock = 30000, iter_calls = 0,
      trace = [Warn_DownloadError 1 4 ''timeout'' 2, Slept 2000, Warn_DownloadError 2 4 ''timeout'' 4, Slept 4000,
               Warn_DownloadError 3 4 ''reset'' 8, Slept 8000, Warn_DownloadError 4 4 ''timeout'' 16, Slept 16000,
               Error_DownloadFailed 7, Warn_ImageFailed 7]\<rparr>"


text \<open>Every log of the second state continues the same log of the first.\<close>

definition logs_extend :: "state \<Rightarrow> state \<Rightarrow> bool" where
  "logs_extend s s' = (\<forall>dname f. \<exists>more. log_of s' dname f = log_of s dname f @ more)"

text \<open>
  Two conditions on the provider: the download script of every image it serves lets the
  retry loop return; and the feed it serves after a feed with a rate-limit exception
  raises nothing.
\<close>

definition downloads_settle :: "env \<Rightarrow> bool" where
  "downloads_settle e = (\<forall>n ch m. Yield (Some m) \<in> set (provider e n ch) \<longrightarrow> fetchable m)"

definition retry_quiet :: "env \<Rightarrow> bool" where
  "retry_quiet e =
     (\<forall>n ch secs. Raise (FloodWaitError secs) \<in> set (provider e n ch) \<longrightarrow>
        (\<forall>ex. Raise ex \<notin> set (provider e (Suc n) ch)))"

text \<open>
  Scenario D of the specification, with a rate limit added: the channel \<open>bad\<close> yields two
  items and then fails; the channel \<open>slow\<close> is rate-limited at its first scan (the second
  call of the run) and yields one item at the next.
\<close>

definition scenario_D_provider :: "nat \<Rightarrow> string \<Rightarrow> feed_event list" where
  "scenario_D_provider n ch =
     (if ch = ''bad''
      then [Yield (Some (text_msg 2 (Some (Date 2025 6 3)))), Yield (Some (text_msg 1 (Some (Date 2025 6 3)))),
            Raise (Error ''boom'')]
      else if ch = ''slow''
      then (if n = 1 then [Raise (FloodWaitError (Some 30))]
            else [Yield (Some (text_msg 8 (Some (Date 2025 6 3))))])
      else [])"

definition scenario_D_env :: env where
  "scenario_D_env = env_with scenario_D_provider"

definition args_for :: "string list \<Rightarrow> args" where
  "args_for chs = \<lparr>args_channels_file = ''channels.txt'', args_channels = chs, args_limit = None,
      args_incremental = False, args_since = None, args_until = None\<rparr>"

definition manifest_for :: "string list \<Rightarrow> (string \<times> channel_result) list \<Rightarrow> nat option \<Rightarrow> manifest" where
  "manifest_for chs rs fin = \<lparr>run_id = 0, m_channels = chs, m_limit = None, m_incremental = False,
      m_since = None, m_until = None, started_at = 0, results = rs, finished_at = fin\<rparr>"


definition scenario_D_results :: "(string \<times> channel_result) list" where
  "scenario_D_results = [(''bad'', \<lparr>processed = 0, status = ''error:boom''\<rparr>),
                         (''slow'', \<lparr>processed = 1, status = ''ok_after_wait''\<rparr>)]"


definition scenario_D_final :: state where
  "scenario_D_final =
     \<lparr>msg_dir = [''2025-06-03''],
      logs = Map.empty((''2025-06-03'', ''bad.json'') \<mapsto>
                log_lines [text_msg 2 (Some (Date 2025 6 3)), text_msg 1 (Some (Date 2025 6 3))],
              (''2025-06-03'', ''slow.json'') \<mapsto> log_lines [text_msg 8 (Some (Date 2025 6 3))]),
      images = [],
      manifests = Map.empty(0 \<mapsto> manifest_for [''bad'', ''slow''] scenario_D_results (Some 31000)),
      clock = 31000, iter_calls = 3,
      trace = [Info_Connected, Exception_Scraping ''bad'' ''boom'', Warn_RunFloodWait 31, Slept 31000,
               Info_Finished ''slow'' 1, Info_ManifestSaved 0, Info_Disconnected]\<rparr>"

text \<open>
  A run over the channels \<open>good\<close> and \<open>slow\<close>: \<open>good\<close> yields one item; \<open>slow\<close> is
  rate-limited at its first scan (the second call of the run), and the scan repeated
  after the wait fails.
\<close>

definition rescan_provider :: "nat \<Rightarrow> string \<Rightarrow> feed_event list" where
  "rescan_provider n ch =
     (if ch = ''good'' then [Yield (Some (text_msg 8 (Some (Date 2025 6 3))))]
      else if ch = ''slow''
      then (if n = 1 then [Raise (FloodWaitError (Some 30))] else [Raise (Error ''boom'')])
      else [])"

definition rescan_env :: env where
  "rescan_env = env_with rescan_provider"

definition rescan_final :: state where
  "rescan_final =
     \<lparr>msg_dir = [''2025-06-03''],
      logs = Map.empty((''2025-06-03'', ''good.json'') \<mapsto> log_lines [text_msg 8 (Some (Date 2025 6 3))]),
      images = [], manifests = (\<lambda>n. None), clock = 31000, iter_calls = 3,
      trace = [Info_Connected, Info_Finished ''good'' 1, Warn_RunFloodWait 31, Slept 31000]\<rparr>"



section \<open>Effects of the operations on the state\<close>

lemma emit_frame [simp]:
  "logs (emit ev s) = logs s" "images (emit ev s) = images s" "manifests (emit ev s) = manifests s"
  "msg_dir (emit ev s) = msg_dir s" "clock (emit ev s) = clock s" "iter_calls (emit ev s) = iter_calls s"
  "trace (emit ev s) = trace s @ [ev]"
  by (simp_all add: emit_def)

lemma sleep_frame [simp]:
  "logs (sleep ms s) = logs s" "images (sleep ms s) = images s" "manifests (sleep ms s) = manifests s"
  "msg_dir (sleep ms s) = msg_dir s" "clock (sleep ms s) = clock s + ms" "iter_calls (sleep ms s) = iter_calls s"
  "trace (sleep ms s) = trace s @ [Slept ms]"
  by (simp_all add: sleep_def)

lemma download_frame:
  "download_with_retries script mid dest mx a s = Some (r, s') \<Longrightarrow>
     logs s' = logs s \<and> manifests s' = manifests s \<and> msg_dir s' = msg_dir s \<and>
     iter_calls s' = iter_calls s \<and> clock s \<le> clock s'"
proof (induction script mid dest mx a s rule: download_with_retries.induct)
  case (1 mid dest mx a s)
  then show ?case by (auto split: if_splits)
next
  case (2 r0 script mid dest mx a s)
  show ?case
  proof (cases "a < mx")
    case False
    with "2.prems" show ?thesis by auto
  next
    case True
    show ?thesis
    proof (cases r0)
      case DlSaved
      with True "2.prems" show ?thesis by auto
    next
      case DlNothing
      with True "2.prems" show ?thesis by auto
    next
      case (DlRaise ex)
      show ?thesis
      proof (cases ex)
        case (FloodWaitError secs)
        with DlRaise True "2.prems" "2.IH"(1) [OF True DlRaise FloodWaitError refl]
        show ?thesis by (auto simp: Let_def)
      next
        case (Error msg)
        with DlRaise True "2.prems" "2.IH"(2) [OF True DlRaise Error refl refl]
        show ?thesis by (auto simp: Let_def)
      qed
    qed
  qed
qed


lemma fetch_image_frame:
  "fetch_image sanitized m date_str s = Some s' \<Longrightarrow>
     logs s' = logs s \<and> manifests s' = manifests s \<and> msg_dir s' = msg_dir s \<and>
     iter_calls s' = iter_calls s \<and> clock s \<le> clock s'"
proof -
  assume a: "fetch_image sanitized m date_str s = Some s'"
  then obtain r s1 where
    d: "download_with_retries (dl_script m) (msg_id m) (sanitized, image_dest s sanitized m date_str)
          default_max_retries 0 s = Some (r, s1)"
    by (auto simp: fetch_image_def Let_def split: option.splits)
  with a have "s' = emit (Info_Downloaded (snd (the r))) s1 \<or> s' = emit (Warn_ImageFailed (msg_id m)) s1"
    by (auto simp: fetch_image_def Let_def split: option.splits)
  with download_frame [OF d] show ?thesis by auto
qed

lemma persist_item_logs:
  assumes "persist_item sanitized msg d s = Some s'"
  shows "logs s' = (logs s)((isoformat d, sanitized @ ''.json'') \<mapsto>
            log_of s (isoformat d) (sanitized @ ''.json'') @ [Parsed (message_to_serializable msg)])"
    and "manifests s' = manifests s" and "iter_calls s' = iter_calls s" and "clock s \<le> clock s'"
  using assms
  by (auto simp: persist_item_def Let_def append_line_def ensure_path_def log_of_def
      split: if_splits option.splits dest!: fetch_image_frame)

lemma log_of_upd:
  "logs s' = (logs s)((d, f) \<mapsto> log_of s d f @ new) \<Longrightarrow>
     log_of s' dname f = log_of s dname f @ (if dname = d then new else [])"
  by (simp add: log_of_def)

lemma log_of_upd_other:
  "logs s' = (logs s)((d, f) \<mapsto> new) \<Longrightarrow> g \<noteq> f \<Longrightarrow> logs s' (dname, g) = logs s (dname, g)"
  by simp

lemma scan_loop_logs:
  "scan_loop sanitized seen_ids since until today feed count s = Some (r, s') \<Longrightarrow>
     log_of s' dname (sanitized @ ''.json'') =
       log_of s dname (sanitized @ ''.json'') @ day_lines today dname (selected seen_ids since until today feed)"
proof (induction sanitized seen_ids since until today feed count s rule: scan_loop.induct)
  case (1 sanitized seen_ids since until today count s)
  then show ?case by (simp add: day_lines_def)
next
  case (2 sanitized seen_ids since until today e feed count s)
  then show ?case by (simp add: day_lines_def)
next
  case (3 sanitized seen_ids since until today feed count s)
  then show ?case by simp
next
  case (4 sanitized seen_ids since until today msg feed count s)
  show ?case
  proof (cases "msg_id msg \<in> seen_ids")
    case True
    with "4.prems" "4.IH"(1) show ?thesis by simp
  next
    case unseen: False
    show ?thesis
    proof (cases "before_since since (item_date today msg)")
      case True
      with unseen "4.prems" show ?thesis by (simp add: day_lines_def)
    next
      case recent: False
      show ?thesis
      proof (cases "from_until until (item_date today msg)")
        case True
        with unseen recent "4.prems" "4.IH"(2) show ?thesis by simp
      next
        case inrange: False
        from unseen recent inrange "4.prems" obtain s1 where
          p: "persist_item sanitized msg (item_date today msg) s = Some s1" and
          rest: "scan_loop sanitized seen_ids since until today feed (count + 1)
                   (if (count + 1) mod 50 = 0 then sleep 300 s1 else s1) = Some (r, s')"
          by (auto split: option.splits)
        have step: "log_of s1 dname (sanitized @ ''.json'') =
            log_of s dname (sanitized @ ''.json'') @ day_lines today dname [msg]"
          using log_of_upd [OF persist_item_logs(1) [OF p], of dname]
          by (auto simp: day_lines_def)
        have same: "log_of (if (count + 1) mod 50 = 0 then sleep 300 s1 else s1) dname (sanitized @ ''.json'')
            = log_of s1 dname (sanitized @ ''.json'')"
          by (simp add: log_of_def)
        from "4.IH"(3) [OF unseen recent inrange p rest] step same unseen recent inrange
        show ?thesis by (simp add: day_lines_def)
      qed
    qed
  qed
qed

lemma download_returns_iff:
  "(download_with_retries script mid dest mx a s \<noteq> None) = settles script mx a"
proof (induction script mid dest mx a s rule: download_with_retries.induct)
  case (1 mid dest mx a s)
  then show ?case by simp
next
  case (2 r0 script mid dest mx a s)
  show ?case
  proof (cases "a < mx")
    case False
    then show ?thesis by simp
  next
    case True
    show ?thesis
    proof (cases r0)
      case DlSaved
      with True show ?thesis by simp
    next
      case DlNothing
      with True show ?thesis by simp
    next
      case (DlRaise ex)
      show ?thesis
      proof (cases ex)
        case (FloodWaitError secs)
        with DlRaise True "2.IH"(1) [OF True DlRaise FloodWaitError refl]
        show ?thesis by (simp add: Let_def)
      next
        case (Error msg)
        with DlRaise True "2.IH"(2) [OF True DlRaise Error refl refl]
        show ?thesis by (simp add: Let_def)
      qed
    qed
  qed
qed

lemma fetch_image_returns:
  "settles (dl_script m) default_max_retries 0 \<Longrightarrow> \<exists>s'. fetch_image sanitized m date_str s = Some s'"
proof -
  assume "settles (dl_script m) default_max_retries 0"
  then have "download_with_retries (dl_script m) (msg_id m) (sanitized, image_dest s sanitized m date_str)
          default_max_retries 0 s \<noteq> None"
    using download_returns_iff [of "dl_script m" "msg_id m" "(sanitized, image_dest s sanitized m date_str)"
        default_max_retries 0 s] by blast
  then show ?thesis
    by (auto simp: fetch_image_def Let_def split: option.splits)
qed

lemma persist_item_returns:
  "fetchable m \<Longrightarrow> \<exists>s'. persist_item sanitized m d s = Some s'"
  using fetch_image_returns [of m sanitized]
  by (auto simp: persist_item_def Let_def fetchable_def)

lemma scan_loop_returns:
  "\<forall>m \<in> set (selected seen_ids since until today feed). fetchable m \<Longrightarrow>
     \<exists>s'. scan_loop sanitized seen_ids since until today feed count s =
        Some (scan_result (raised seen_ids since today feed)
                (count + length (selected seen_ids since until today feed)), s')"
proof (induction sanitized seen_ids since until today feed count s rule: scan_loop.induct)
  case (1 sanitized seen_ids since until today count s)
  then show ?case by (simp add: scan_result_def)
next
  case (2 sanitized seen_ids since until today e feed count s)
  then show ?case by (simp add: scan_result_def)
next
  case (3 sanitized seen_ids since until today feed count s)
  then show ?case by simp
next
  case (4 sanitized seen_ids since until today msg feed count s)
  show ?case
  proof (cases "msg_id msg \<in> seen_ids")
    case True
    with "4.prems" "4.IH"(1) show ?thesis by simp
  next
    case unseen: False
    show ?thesis
    proof (cases "before_since since (item_date today msg)")
      case True
      with unseen show ?thesis by (simp add: scan_result_def)
    next
      case recent: False
      show ?thesis
      proof (cases "from_until until (item_date today msg)")
        case True
        with unseen recent "4.prems" "4.IH"(2) show ?thesis by simp
      next
        case inrange: False
        with unseen recent "4.prems" have "fetchable msg" by simp
        then obtain s1 where p: "persist_item sanitized msg (item_date today msg) s = Some s1"
          using persist_item_returns by blast
        from unseen recent inrange "4.prems"
        have "\<forall>m \<in> set (selected seen_ids since until today feed). fetchable m" by simp
        from "4.IH"(3) [OF unseen recent inrange p this] p unseen recent inrange
        show ?thesis by simp
      qed
    qed
  qed
qed

lemma scan_loop_result:
  "scan_loop sanitized seen_ids since until today feed count s = Some (r, s') \<Longrightarrow>
     r = scan_result (raised seen_ids since today feed)
           (count + length (selected seen_ids since until today feed))"
proof (induction sanitized seen_ids since until today feed count s rule: scan_loop.induct)
  case (1 sanitized seen_ids since until today count s)
  then show ?case by (simp add: scan_result_def)
next
  case (2 sanitized seen_ids since until today e feed count s)
  then show ?case by (simp add: scan_result_def)
next
  case (3 sanitized seen_ids since until today feed count s)
  then show ?case by simp
next
  case (4 sanitized seen_ids since until today msg feed count s)
  show ?case
  proof (cases "msg_id msg \<in> seen_ids")
    case True
    with "4.prems" "4.IH"(1) show ?thesis by simp
  next
    case unseen: False
    show ?thesis
    proof (cases "before_since since (item_date today msg)")
      case True
      with unseen "4.prems" show ?thesis by (auto simp add: scan_result_def)
    next
      case recent: False
      show ?thesis
      proof (cases "from_until until (item_date today msg)")
        case True
        with unseen recent "4.prems" "4.IH"(2) show ?thesis by simp
      next
        case inrange: False
        from unseen recent inrange "4.prems" obtain s1 where
          p: "persist_item sanitized msg (item_date today msg) s = Some s1" and
          rest: "scan_loop sanitized seen_ids since until today feed (count + 1)
                   (if (count + 1) mod 50 = 0 then sleep 300 s1 else s1) = Some (r, s')"
          by (auto split: option.splits)
        from "4.IH"(3) [OF unseen recent inrange p rest] unseen recent inrange
        show ?thesis by simp
      qed
    qed
  qed
qed

lemma scan_loop_frame:
  "scan_loop sanitized seen_ids since until today feed count s = Some (r, s') \<Longrightarrow>
     manifests s' = manifests s \<and> iter_calls s' = iter_calls s \<and> clock s \<le> clock s' \<and>
     (\<forall>dname f. f \<noteq> sanitized @ ''.json'' \<longrightarrow> logs s' (dname, f) = logs s (dname, f))"
proof (induction sanitized seen_ids since until today feed count s rule: scan_loop.induct)
  case (1 sanitized seen_ids since until today count s)
  then show ?case by (simp add: scan_result_def)
next
  case (2 sanitized seen_ids since until today e feed count s)
  then show ?case by (simp add: scan_result_def)
next
  case (3 sanitized seen_ids since until today feed count s)
  then show ?case by simp
next
  case (4 sanitized seen_ids since until today msg feed count s)
  show ?case
  proof (cases "msg_id msg \<in> seen_ids")
    case True
    with "4.prems" "4.IH"(1) show ?thesis by simp
  next
    case unseen: False
    show ?thesis
    proof (cases "before_since since (item_date today msg)")
      case True
      with unseen "4.prems" show ?thesis by simp
    next
      case recent: False
      show ?thesis
      proof (cases "from_until until (item_date today msg)")
        case True
        with unseen recent "4.prems" "4.IH"(2) show ?thesis by simp
      next
        case inrange: False
        from unseen recent inrange "4.prems" obtain s1 where
          p: "persist_item sanitized msg (item_date today msg) s = Some s1" and
          rest: "scan_loop sanitized seen_ids since until today feed (count + 1)
                   (if (count + 1) mod 50 = 0 then sleep 300 s1 else s1) = Some (r, s')"
          by (auto split: option.splits)
        note ih = "4.IH"(3) [OF unseen recent inrange p rest]
        note pl = persist_item_logs [OF p]
        have "manifests s' = manifests s" using ih pl(2) by (simp split: if_splits)
        moreover have "iter_calls s' = iter_calls s" using ih pl(3) by (simp split: if_splits)
        moreover have "clock s \<le> clock s'" using ih pl(4) by (auto split: if_splits)
        moreover have "\<forall>dname f. f \<noteq> sanitized @ ''.json'' \<longrightarrow> logs s' (dname, f) = logs s (dname, f)"
          using ih pl(1) by (simp split: if_splits)
        ultimately show ?thesis by blast
      qed
    qed
  qed
qed

section \<open>The item id read back from an image's file name\<close>

text \<open>
  Claim C6: the first digit run of the stem of every image file written by the scraper is
  the item's id, whatever the channel's name.  The scraper's own usage example has the
  channel \<open>CheMed123\<close>: for its message 42 of 2025-06-01 the image is
  \<open>CheMed123_42_2025-06-01.jpg\<close>, and the enrichment script reads the id 123 from it.
\<close>

theorem filename_id_of_CheMed123:
  "image_fname (sanitize_filename ''CheMed123'') 42 (isoformat (Date 2025 6 1)) ''.jpg''
     = ''CheMed123_42_2025-06-01.jpg'' \<and>
   extract_message_id (image_fname (sanitize_filename ''CheMed123'') 42 (isoformat (Date 2025 6 1)) ''.jpg'')
     = Some 123"
  by code_simp

section \<open>Media retrieval never overwrites\<close>






section \<open>The retry budget of \<open>download_with_retries\<close>\<close>

lemma backoffs_append: "backoffs (xs @ ys) = backoffs xs @ backoffs ys"
  by (induction xs rule: backoffs.induct) simp_all

lemma floods_keep_attempt:
  "a < mx \<Longrightarrow>
     download_with_retries (map (\<lambda>w. DlRaise (FloodWaitError w)) ws @ script) mid dest mx a s =
     download_with_retries script mid dest mx a (flood_waits ws s)"
proof (induction ws arbitrary: s)
  case Nil
  then show ?case by (simp add: flood_waits_def)
next
  case (Cons w ws)
  then show ?case by (simp add: flood_waits_def Let_def)
qed

lemma download_backoffs:
  "download_with_retries script mid dest mx a s = Some (r, s') \<Longrightarrow>
     \<exists>new k. trace s' = trace s @ new \<and> a + k \<le> max a mx \<and>
        backoffs new = map (\<lambda>j. (j, 2 ^ j)) [a + 1 ..< a + 1 + k]"
proof (induction script mid dest mx a s rule: download_with_retries.induct)
  case (1 mid dest mx a s)
  then have "trace s' = trace s @ [Error_DownloadFailed mid]" by (auto split: if_splits)
  then show ?case by (intro exI [of _ "[Error_DownloadFailed mid]"] exI [of _ 0]) simp
next
  case (2 r0 script mid dest mx a s)
  show ?case
  proof (cases "a < mx")
    case False
    with "2.prems" have "trace s' = trace s @ [Error_DownloadFailed mid]" by auto
    then show ?thesis by (intro exI [of _ "[Error_DownloadFailed mid]"] exI [of _ 0]) simp
  next
    case True
    show ?thesis
    proof (cases r0)
      case DlSaved
      with True "2.prems" have "trace s' = trace s @ []" by auto
      then show ?thesis by (intro exI [of _ "[]"] exI [of _ 0]) simp
    next
      case DlNothing
      with True "2.prems" have "trace s' = trace s @ []" by auto
      then show ?thesis by (intro exI [of _ "[]"] exI [of _ 0]) simp
    next
      case (DlRaise ex)
      show ?thesis
      proof (cases ex)
        case (FloodWaitError secs)
        let ?s1 = "sleep (1000 * (flood_seconds secs + 1)) (emit (Warn_FloodWait (flood_seconds secs)) s)"
        from DlRaise FloodWaitError True "2.prems"
        have rest: "download_with_retries script mid dest mx a ?s1 = Some (r, s')"
          by (simp add: Let_def)
        from "2.IH"(1) [OF True DlRaise FloodWaitError refl rest]
        obtain new k where n: "trace s' = trace ?s1 @ new" "a + k \<le> max a mx"
          "backoffs new = map (\<lambda>j. (j, 2 ^ j)) [a + 1 ..< a + 1 + k]" by blast
        let ?new = "[Warn_FloodWait (flood_seconds secs), Slept (1000 * (flood_seconds secs + 1))] @ new"
        have "trace s' = trace s @ ?new" using n(1) by simp
        moreover have "backoffs ?new = map (\<lambda>j. (j, 2 ^ j)) [a + 1 ..< a + 1 + k]"
          using n(3) by simp
        ultimately show ?thesis using n(2) by blast
      next
        case (Error msg)
        let ?s1 = "sleep (1000 * 2 ^ (a + 1)) (emit (Warn_DownloadError (a + 1) mx msg (2 ^ (a + 1))) s)"
        from DlRaise Error True "2.prems"
        have rest: "download_with_retries script mid dest mx (a + 1) ?s1 = Some (r, s')"
          by (simp add: Let_def)
        from "2.IH"(2) [OF True DlRaise Error refl refl rest]
        obtain new k where n: "trace s' = trace ?s1 @ new" "a + 1 + k \<le> max (a + 1) mx"
          "backoffs new = map (\<lambda>j. (j, 2 ^ j)) [a + 1 + 1 ..< a + 1 + 1 + k]" by blast
        let ?new = "[Warn_DownloadError (a + 1) mx msg (2 ^ (a + 1)), Slept (1000 * 2 ^ (a + 1))] @ new"
        have t: "trace s' = trace s @ ?new" using n(1) by simp
        have "[a + 1 ..< a + 1 + (k + 1)] = (a + 1) # [a + 1 + 1 ..< a + 1 + 1 + k]"
          by (simp add: upt_conv_Cons)
        then have b: "backoffs ?new = map (\<lambda>j. (j, 2 ^ j)) [a + 1 ..< a + 1 + (k + 1)]"
          using n(3) by simp
        have c: "a + (k + 1) \<le> max a mx" using n(2) True by simp
        from t b c show ?thesis by blast
      qed
    qed
  qed
qed

text \<open>
  Claim C4: in \<open>download_with_retries\<close> a rate-limit signal leaves the attempt counter as
  it is, however many of them come, and each is slept out for the signalled seconds
  plus one; a generic failure takes one attempt and sleeps \<open>2 ^ attempt\<close> seconds, so the
  delays double; the failures of a call are numbered \<open>attempt + 1, attempt + 2, ...\<close> and
  never go beyond \<open>max_retries\<close>, which is 4 by default.
\<close>

theorem retry_budget:
  "(a < mx \<longrightarrow>
      download_with_retries (map (\<lambda>w. DlRaise (FloodWaitError w)) ws @ script) mid dest mx a s =
      download_with_retries script mid dest mx a (flood_waits ws s)) \<and>
   (a < mx \<longrightarrow>
      download_with_retries (DlRaise (Error e) # script) mid dest mx a s =
      download_with_retries script mid dest mx (a + 1)
        (sleep (1000 * 2 ^ (a + 1)) (emit (Warn_DownloadError (a + 1) mx e (2 ^ (a + 1))) s))) \<and>
   (download_with_retries script mid dest mx a s = Some (r, s') \<longrightarrow>
      (\<exists>new k. trace s' = trace s @ new \<and> a + k \<le> max a mx \<and>
         backoffs new = map (\<lambda>j. (j, 2 ^ j)) [a + 1 ..< a + 1 + k])) \<and>
   default_max_retries = 4"
  using floods_keep_attempt [of a mx ws script mid dest s]
    download_backoffs [of script mid dest mx a s r s']
  by (simp add: Let_def default_max_retries_def)

lemma retry_script_eval:
  "download_with_retries retry_script 7 (''ch1'', ''ch1_7_2025-06-01.jpg'') 4 0 empty_state
     = Some (Some (''ch1'', ''ch1_7_2025-06-01.jpg''), retry_final)"
  by (simp add: retry_script_def empty_state_def retry_final_def Let_def flood_seconds_def
      emit_def sleep_def)

theorem retry_budget_witness:
  "(0::nat) < 4 \<and>
   download_with_retries retry_script 7 (''ch1'', ''ch1_7_2025-06-01.jpg'') 4 0 empty_state
     = Some (Some (''ch1'', ''ch1_7_2025-06-01.jpg''), retry_final) \<and>
   backoffs (trace retry_final) = [(1, 2), (2, 4)] \<and>
   download_with_retries (map (\<lambda>w. DlRaise (FloodWaitError w)) [Some 5, None] @ [DlNothing]) 7
       (''ch1'', ''ch1_7_2025-06-01.jpg'') 4 0 empty_state
     = Some (None, flood_waits [Some 5, None] empty_state)"
  using retry_budget [of 0 4 "[Some 5, None]" "[DlNothing]" 7 "(''ch1'', ''ch1_7_2025-06-01.jpg'')"
      empty_state "''x''" None "flood_waits [Some 5, None] empty_state"]
    retry_budget [of 0 4 "[]" retry_script 7 "(''ch1'', ''ch1_7_2025-06-01.jpg'')"
      empty_state "''x''" "Some (''ch1'', ''ch1_7_2025-06-01.jpg'')" retry_final]
    retry_script_eval
  by (simp add: retry_final_def)

section \<open>What \<open>scrape_channel\<close> does to the logs\<close>

lemma selected_mem:
  "m \<in> set (selected seen_ids since until today feed) \<Longrightarrow>
     Yield (Some m) \<in> set feed \<and> msg_id m \<notin> seen_ids \<and>
     \<not> before_since since (item_date today m) \<and> \<not> from_until until (item_date today m)"
  by (induction seen_ids since until today feed rule: selected.induct) (auto split: if_splits)

lemma day_lines_mem:
  "m \<in> set ms \<Longrightarrow> Parsed (message_to_serializable m) \<in> set (day_lines today (isoformat (item_date today m)) ms)"
  by (auto simp: day_lines_def)

lemma scan_loop_break:
  "msg_id old \<notin> seen_ids \<Longrightarrow> before_since since (item_date today old) \<Longrightarrow>
     scan_loop sanitized seen_ids since until today (pre @ Yield (Some old) # rest) count s =
     scan_loop sanitized seen_ids since until today pre count s"
proof (induction sanitized seen_ids since until today pre count s rule: scan_loop.induct)
  case (1 sanitized seen_ids since until today count s)
  then show ?case by simp
next
  case (2 sanitized seen_ids since until today e feed count s)
  then show ?case by simp
next
  case (3 sanitized seen_ids since until today feed count s)
  then show ?case by simp
next
  case (4 sanitized seen_ids since until today msg feed count s)
  then show ?case by (auto split: option.splits)
qed

lemma selected_reached:
  "\<forall>ev \<in> set pre. is_yield ev \<Longrightarrow>
   \<forall>x. Yield (Some x) \<in> set pre \<and> msg_id x \<notin> seen_ids \<longrightarrow> \<not> before_since since (item_date today x) \<Longrightarrow>
   Yield (Some m) \<in> set pre \<Longrightarrow> msg_id m \<notin> seen_ids \<Longrightarrow> \<not> from_until until (item_date today m) \<Longrightarrow>
     m \<in> set (selected seen_ids since until today pre)"
proof (induction seen_ids since until today pre rule: selected.induct)
  case (1 seen_ids since until today)
  then show ?case by simp
next
  case (2 seen_ids since until today e feed)
  then show ?case by simp
next
  case (3 seen_ids since until today feed)
  then show ?case by simp
next
  case (4 seen_ids since until today msg feed)
  then show ?case by auto
qed

lemma dedup_skipped_yield: "dedup_skipped seen_ids ev \<Longrightarrow> is_yield ev"
  by (cases ev) auto

lemma dups_le_yields:
  "length (filter (dedup_skipped seen_ids) feed) \<le> length (filter is_yield feed)"
  by (induction feed) (auto dest: dedup_skipped_yield)

lemma selected_le_yields:
  "length (selected seen_ids since until today feed) + length (filter (dedup_skipped seen_ids) feed)
     \<le> length (filter is_yield feed)"
proof (induction seen_ids since until today feed rule: selected.induct)
  case (1 seen_ids since until today)
  then show ?case by simp
next
  case (2 seen_ids since until today e feed)
  then show ?case using dups_le_yields [of seen_ids feed] by simp
next
  case (3 seen_ids since until today feed)
  then show ?case by simp
next
  case (4 seen_ids since until today msg feed)
  then show ?case using dups_le_yields [of seen_ids feed] by auto
qed

lemma take_yields_le: "length (filter is_yield (take_yields n feed)) \<le> n"
proof (induction n feed rule: take_yields.induct)
  case (1 n)
  then show ?case by simp
next
  case (2 n ev feed)
  show ?case
  proof (cases "n = 0")
    case True
    then show ?thesis by simp
  next
    case False
    with "2.IH" show ?thesis by (cases ev) auto
  qed
qed

lemma scrape_channel_scan:
  assumes "scrape_channel e channel limit incremental since until s = Some (r, s')"
  shows "\<exists>s1. scan_loop (sanitize_filename channel) (if incremental then load_seen_ids s channel else {})
            since until (date_today e) (iter_messages (provider e (iter_calls s) channel) limit) 0
            (s\<lparr>iter_calls := iter_calls s + 1\<rparr>) = Some (r, s1) \<and>
          (s' = s1 \<or> (\<exists>n. s' = emit (Info_Finished channel n) s1))"
  using assms
  by (auto simp: scrape_channel_def Let_def split: option.splits sum.splits)

lemma log_of_cong: "logs s1 = logs s2 \<Longrightarrow> log_of s1 = log_of s2"
  by (auto simp: log_of_def fun_eq_iff)

lemma scrape_channel_logs:
  assumes "scrape_channel e channel limit incremental since until s = Some (r, s')"
  shows "log_of s' dname (sanitize_filename channel @ ''.json'') =
           log_of s dname (sanitize_filename channel @ ''.json'') @
           day_lines (date_today e) dname
             (selected (if incremental then load_seen_ids s channel else {}) since until (date_today e)
                (iter_messages (provider e (iter_calls s) channel) limit))"
proof -
  from scrape_channel_scan [OF assms] obtain s1 where
    sc: "scan_loop (sanitize_filename channel) (if incremental then load_seen_ids s channel else {})
            since until (date_today e) (iter_messages (provider e (iter_calls s) channel) limit) 0
            (s\<lparr>iter_calls := iter_calls s + 1\<rparr>) = Some (r, s1)"
    and fin: "s' = s1 \<or> (\<exists>n. s' = emit (Info_Finished channel n) s1)" by blast
  from fin have "logs s' = logs s1" by auto
  then have a: "log_of s' = log_of s1" by (rule log_of_cong)
  have b: "log_of (s\<lparr>iter_calls := iter_calls s + 1\<rparr>) = log_of s" by (rule log_of_cong) simp
  from scan_loop_logs [OF sc, of dname] a b show ?thesis by simp
qed

lemma scrape_channel_result:
  assumes "scrape_channel e channel limit incremental since until s = Some (r, s')"
  shows "r = scan_result
           (raised (if incremental then load_seen_ids s channel else {}) since (date_today e)
              (iter_messages (provider e (iter_calls s) channel) limit))
           (length (selected (if incremental then load_seen_ids s channel else {}) since until (date_today e)
              (iter_messages (provider e (iter_calls s) channel) limit)))"
proof -
  from scrape_channel_scan [OF assms] obtain s1 where
    sc: "scan_loop (sanitize_filename channel) (if incremental then load_seen_ids s channel else {})
            since until (date_today e) (iter_messages (provider e (iter_calls s) channel) limit) 0
            (s\<lparr>iter_calls := iter_calls s + 1\<rparr>) = Some (r, s1)" by blast
  from scan_loop_result [OF sc] show ?thesis by simp
qed

lemma scrape_channel_frame:
  assumes "scrape_channel e channel limit incremental since until s = Some (r, s')"
  shows "manifests s' = manifests s" and "iter_calls s' = iter_calls s + 1" and "clock s \<le> clock s'"
    and "f \<noteq> sanitize_filename channel @ ''.json'' \<Longrightarrow> logs s' (dname, f) = logs s (dname, f)"
proof -
  from scrape_channel_scan [OF assms] obtain s1 where
    sc: "scan_loop (sanitize_filename channel) (if incremental then load_seen_ids s channel else {})
            since until (date_today e) (iter_messages (provider e (iter_calls s) channel) limit) 0
            (s\<lparr>iter_calls := iter_calls s + 1\<rparr>) = Some (r, s1)"
    and fin: "s' = s1 \<or> (\<exists>n. s' = emit (Info_Finished channel n) s1)" by blast
  note fr = scan_loop_frame [OF sc]
  from fin fr show "manifests s' = manifests s" by auto
  from fin fr show "iter_calls s' = iter_calls s + 1" by auto
  from fin fr show "clock s \<le> clock s'" by auto
  assume "f \<noteq> sanitize_filename channel @ ''.json''"
  with fin fr show "logs s' (dname, f) = logs s (dname, f)" by auto
qed

section \<open>The \<open>since\<close> bound ends the scan\<close>

lemmas scan_eval = text_msg_def empty_state_def persist_item_def item_date_def before_since_def
  from_until_def date_less_def date_ge_def isoformat_def zfill_def str_nat.simps digit_chars_def
  ensure_path_def append_line_def is_image_def Let_def log_lines_def emit_def sleep_def

lemmas sanitize_eval = sanitize_filename_def strip_def is_space_def kept_def is_word_def digit_chars_def

lemma sanitize_feed_b: "sanitize_filename ''feed_b'' = ''feed_b''"
  by (simp add: sanitize_eval)

lemma scenario_B_scan:
  "scan_loop ''feed_b'' {} (Some (Date 2025 6 1)) None (Date 2025 6 15) scenario_B_feed 0 empty_state
     = Some (Inr 2, scenario_B_scanned)"
  by (simp add: scenario_B_feed_def scenario_B_pre_def scenario_B_scanned_def scan_eval)

lemma scenario_B_scrape:
  "scrape_channel scenario_B_env ''feed_b'' None False (Some (Date 2025 6 1)) None empty_state
     = Some (Inr 2, scenario_B_final)"
proof -
  have "scan_loop ''feed_b'' {} (Some (Date 2025 6 1)) None (Date 2025 6 15) scenario_B_feed 0
          (empty_state\<lparr>iter_calls := iter_calls empty_state + 1\<rparr>)
        = Some (Inr 2, scenario_B_scanned\<lparr>iter_calls := 1\<rparr>)"
    by (simp add: scenario_B_feed_def scenario_B_pre_def scenario_B_scanned_def scan_eval)
  then show ?thesis
    by (simp add: scrape_channel_def sanitize_feed_b scenario_B_env_def env_with_def iter_messages_def
        scenario_B_final_def emit_def scenario_B_scanned_def empty_state_def)
qed

text \<open>
  Claim C1, amended: when the loop meets an item that is not in the Dedup Index and whose
  date is before \<open>since\<close>, it stops: the scan is the scan of the feed before that item,
  whatever follows it.  Every item met before it that is not in the Dedup Index and is
  before \<open>until\<close> is in the log when the scan returns, provided no exception and no
  earlier item before \<open>since\<close> came first.  In scenario B the items of 06-10 and 06-05
  are persisted and the item of 06-01, which comes after the one of 05-20, is not.
\<close>

theorem since_bound_stops_scan:
  assumes "msg_id old \<notin> seen_ids" and "before_since since (item_date today old)"
  shows "scan_loop sanitized seen_ids since until today (pre @ Yield (Some old) # rest) count s =
           scan_loop sanitized seen_ids since until today pre count s \<and>
         ((\<forall>ev\<in>set pre. is_yield ev) \<and>
          (\<forall>x. Yield (Some x) \<in> set pre \<and> msg_id x \<notin> seen_ids \<longrightarrow> \<not> before_since since (item_date today x)) \<and>
          Yield (Some m) \<in> set pre \<and> msg_id m \<notin> seen_ids \<and> \<not> from_until until (item_date today m) \<and>
          scan_loop sanitized seen_ids since until today (pre @ Yield (Some old) # rest) count s = Some (r, s')
          \<longrightarrow> Parsed (message_to_serializable m)
                \<in> set (log_of s' (isoformat (item_date today m)) (sanitized @ ''.json'')))"
proof -
  have stop: "scan_loop sanitized seen_ids since until today (pre @ Yield (Some old) # rest) count s =
           scan_loop sanitized seen_ids since until today pre count s"
    using assms by (rule scan_loop_break)
  have "Parsed (message_to_serializable m)
          \<in> set (log_of s' (isoformat (item_date today m)) (sanitized @ ''.json''))"
    if y: "\<forall>ev\<in>set pre. is_yield ev"
      and recent: "\<forall>x. Yield (Some x) \<in> set pre \<and> msg_id x \<notin> seen_ids \<longrightarrow> \<not> before_since since (item_date today x)"
      and m: "Yield (Some m) \<in> set pre" "msg_id m \<notin> seen_ids" "\<not> from_until until (item_date today m)"
      and run: "scan_loop sanitized seen_ids since until today (pre @ Yield (Some old) # rest) count s = Some (r, s')"
  proof -
    from run stop have "scan_loop sanitized seen_ids since until today pre count s = Some (r, s')" by simp
    from scan_loop_logs [OF this, of "isoformat (item_date today m)"]
    have "set (day_lines today (isoformat (item_date today m)) (selected seen_ids since until today pre))
            \<subseteq> set (log_of s' (isoformat (item_date today m)) (sanitized @ ''.json''))" by simp
    moreover have "m \<in> set (selected seen_ids since until today pre)"
      using selected_reached [OF y recent m] .
    ultimately show ?thesis using day_lines_mem by blast
  qed
  with stop show ?thesis by blast
qed

theorem since_bound_stops_scan_witness:
  "msg_id (text_msg 2 (Some (Date 2025 5 20))) \<notin> {} \<and>
   before_since (Some (Date 2025 6 1)) (item_date (Date 2025 6 15) (text_msg 2 (Some (Date 2025 5 20)))) \<and>
   scan_loop ''feed_b'' {} (Some (Date 2025 6 1)) None (Date 2025 6 15) scenario_B_feed 0 empty_state
     = Some (Inr 2, scenario_B_scanned) \<and>
   scan_loop ''feed_b'' {} (Some (Date 2025 6 1)) None (Date 2025 6 15) scenario_B_pre 0 empty_state
     = Some (Inr 2, scenario_B_scanned) \<and>
   Parsed (message_to_serializable (text_msg 4 (Some (Date 2025 6 10))))
     \<in> set (log_of scenario_B_scanned ''2025-06-10'' ''feed_b.json'') \<and>
   Parsed (message_to_serializable (text_msg 3 (Some (Date 2025 6 5))))
     \<in> set (log_of scenario_B_scanned ''2025-06-05'' ''feed_b.json'')"
proof -
  have old: "msg_id (text_msg 2 (Some (Date 2025 5 20))) \<notin> {}" by simp
  have early: "before_since (Some (Date 2025 6 1)) (item_date (Date 2025 6 15) (text_msg 2 (Some (Date 2025 5 20))))"
    by (simp add: scan_eval)
  have y: "\<forall>ev\<in>set scenario_B_pre. is_yield ev" by (simp add: scenario_B_pre_def)
  have recent: "\<forall>x. Yield (Some x) \<in> set scenario_B_pre \<and> msg_id x \<notin> {} \<longrightarrow>
      \<not> before_since (Some (Date 2025 6 1)) (item_date (Date 2025 6 15) x)"
    by (auto simp: scenario_B_pre_def scan_eval)
  have run: "scan_loop ''feed_b'' {} (Some (Date 2025 6 1)) None (Date 2025 6 15)
       (scenario_B_pre @ Yield (Some (text_msg 2 (Some (Date 2025 5 20))))
          # [Yield (Some (text_msg 1 (Some (Date 2025 6 1))))]) 0 empty_state
     = Some (Inr 2, scenario_B_scanned)"
    using scenario_B_scan by (simp add: scenario_B_feed_def)
  note th = since_bound_stops_scan [OF old early, where sanitized = "''feed_b''" and until = None
      and pre = scenario_B_pre and rest = "[Yield (Some (text_msg 1 (Some (Date 2025 6 1))))]"
      and count = 0 and s = empty_state and r = "Inr 2" and s' = scenario_B_scanned]
  have i4: "isoformat (item_date (Date 2025 6 15) (text_msg 4 (Some (Date 2025 6 10)))) = ''2025-06-10''"
    by (simp add: scan_eval)
  have i3: "isoformat (item_date (Date 2025 6 15) (text_msg 3 (Some (Date 2025 6 5)))) = ''2025-06-05''"
    by (simp add: scan_eval)
  have m4: "Parsed (message_to_serializable (text_msg 4 (Some (Date 2025 6 10))))
     \<in> set (log_of scenario_B_scanned ''2025-06-10'' ''feed_b.json'')"
    using th [of "text_msg 4 (Some (Date 2025 6 10))"] y recent run i4
    by (simp add: scenario_B_pre_def from_until_def)
  have m3: "Parsed (message_to_serializable (text_msg 3 (Some (Date 2025 6 5))))
     \<in> set (log_of scenario_B_scanned ''2025-06-05'' ''feed_b.json'')"
    using th [of "text_msg 3 (Some (Date 2025 6 5))"] y recent run i3
    by (simp add: scenario_B_pre_def from_until_def)
  have pre: "scan_loop ''feed_b'' {} (Some (Date 2025 6 1)) None (Date 2025 6 15) scenario_B_pre 0 empty_state
     = Some (Inr 2, scenario_B_scanned)"
    using th [of "text_msg 4 (Some (Date 2025 6 10))"] run by simp
  from old early scenario_B_scan pre m4 m3 show ?thesis by blast
qed

text \<open>Scenario B as the claim words it has the item of 06-01 persisted; the scan returns 2
  and leaves no log for 2025-06-01.\<close>

theorem scenario_B_counterexample:
  "scrape_channel scenario_B_env ''feed_b'' None False (Some (Date 2025 6 1)) None empty_state
     = Some (Inr 2, scenario_B_final) \<and>
   log_of scenario_B_final ''2025-06-01'' ''feed_b.json'' = []"
  using scenario_B_scrape
  by (simp add: scenario_B_final_def scenario_B_scanned_def log_of_def)

section \<open>Incremental scans and the cap\<close>

lemma sanitize_news_x: "sanitize_filename ''news_x'' = ''news_x''"
  by (simp add: sanitize_eval)

lemmas seen_eval = load_seen_ids_def sanitize_news_x log_lines_def message_to_serializable_def dict_get_def
  text_msg_def Let_def


lemma capped_seen: "load_seen_ids capped_state ''news_x'' = {3, 4, 5}"
  by (auto simp: capped_state_def seen_eval)


lemma capped_feed: "iter_messages scenario_A_feed (Some 3) = take 3 scenario_A_feed"
  by (simp add: iter_messages_def scenario_A_feed_def)

lemma capped_scrape:
  "scrape_channel scenario_A_env ''news_x'' (Some 3) True None None capped_state = Some (Inr 0, capped_final)"
proof -
  have "scan_loop ''news_x'' {3, 4, 5} None None (Date 2025 6 15) (take 3 scenario_A_feed) 0
          (capped_state\<lparr>iter_calls := iter_calls capped_state + 1\<rparr>)
        = Some (Inr 0, capped_state\<lparr>iter_calls := 1\<rparr>)"
    by (simp add: scenario_A_feed_def capped_state_def scan_eval)
  moreover have "trace capped_state = []" by (simp add: capped_state_def)
  ultimately show ?thesis
    by (simp add: scrape_channel_def sanitize_news_x capped_seen capped_feed emit_def capped_final_def
        scenario_A_env_def env_with_def)
qed

lemma uncapped_scrape:
  "scrape_channel scenario_A_env ''news_x'' None True None None capped_state = Some (Inr 2, uncapped_final)"
proof -
  have "scan_loop ''news_x'' {3, 4, 5} None None (Date 2025 6 15) scenario_A_feed 0
          (capped_state\<lparr>iter_calls := iter_calls capped_state + 1\<rparr>)
        = Some (Inr 2, uncapped_final\<lparr>trace := []\<rparr>)"
    by (simp add: scenario_A_feed_def capped_state_def uncapped_final_def scan_eval)
  then show ?thesis
    by (simp add: scrape_channel_def sanitize_news_x capped_seen scenario_A_env_def env_with_def
        iter_messages_def emit_def uncapped_final_def)
qed












text \<open>
  Claim C5, amended: the cap is the \<open>limit\<close> of the message iterator, so it bounds the
  items the loop inspects: the items persisted and the items skipped for the Dedup Index
  among the inspected ones are together at most the cap.
\<close>

theorem cap_counts_dedup_skipped:
  assumes "scrape_channel e channel (Some l) incremental since until s = Some (Inr n, s')"
  shows "n + length (filter (dedup_skipped (if incremental then load_seen_ids s channel else {}))
                 (iter_messages (provider e (iter_calls s) channel) (Some l))) \<le> nat l"
proof -
  let ?seen = "if incremental then load_seen_ids s channel else {}"
  let ?feed = "iter_messages (provider e (iter_calls s) channel) (Some l)"
  from scrape_channel_result [OF assms]
  have "n = length (selected ?seen since until (date_today e) ?feed)"
    by (auto simp: scan_result_def split: option.splits)
  moreover have "length (filter is_yield ?feed) \<le> nat l"
    by (simp add: iter_messages_def take_yields_le)
  ultimately show ?thesis
    using selected_le_yields [of ?seen since until "date_today e" ?feed] by linarith
qed

theorem cap_counts_dedup_skipped_witness:
  "scrape_channel scenario_A_env ''news_x'' (Some 3) True None None capped_state = Some (Inr 0, capped_final) \<and>
   length (filter (dedup_skipped (load_seen_ids capped_state ''news_x''))
      (iter_messages (provider scenario_A_env (iter_calls capped_state) ''news_x'') (Some 3))) = 3"
  using cap_counts_dedup_skipped [OF capped_scrape] capped_scrape capped_seen capped_feed
  by (simp add: scenario_A_env_def env_with_def scenario_A_feed_def text_msg_def)

text \<open>With the items 5, 4, 3 on disk and a cap of 3, the scan persists nothing; without
  the cap it persists the items 2 and 1.\<close>

theorem cap_counterexample:
  "scrape_channel scenario_A_env ''news_x'' (Some 3) True None None capped_state = Some (Inr 0, capped_final) \<and>
   log_of capped_final ''2025-05-30'' ''news_x.json'' = log_lines [text_msg 3 (Some (Date 2025 5 30))] \<and>
   scrape_channel scenario_A_env ''news_x'' None True None None capped_state = Some (Inr 2, uncapped_final) \<and>
   log_of uncapped_final ''2025-05-30'' ''news_x.json''
     = log_lines [text_msg 3 (Some (Date 2025 5 30)), text_msg 2 (Some (Date 2025 5 30)),
                  text_msg 1 (Some (Date 2025 5 30))]"
  using capped_scrape uncapped_scrape
  by (simp add: capped_final_def capped_state_def uncapped_final_def log_of_def)

section \<open>Items without a timestamp, items whose image cannot be fetched\<close>

lemma exhausted_returns_None:
  "\<forall>r0\<in>set script. is_raise r0 \<Longrightarrow> mx \<le> a + length (filter is_generic script) \<Longrightarrow>
     \<exists>s'. download_with_retries script mid dest mx a s = Some (None, s') \<and> images s' = images s"
proof (induction script arbitrary: a s)
  case Nil
  then show ?case by simp
next
  case (Cons r0 script)
  show ?case
  proof (cases "a < mx")
    case False
    then show ?thesis by simp
  next
    case True
    from Cons.prems(1) obtain ex where r0: "r0 = DlRaise ex" by (cases r0) auto
    show ?thesis
    proof (cases ex)
      case (FloodWaitError secs)
      with r0 Cons.prems have "mx \<le> a + length (filter is_generic script)" by simp
      from Cons.IH [OF _ this, of "sleep (1000 * (flood_seconds secs + 1)) (emit (Warn_FloodWait (flood_seconds secs)) s)"]
        Cons.prems(1) r0 FloodWaitError True
      show ?thesis by (simp add: Let_def)
    next
      case (Error msg)
      with r0 Cons.prems have "mx \<le> (a + 1) + length (filter is_generic script)" by simp
      from Cons.IH [OF _ this, of "sleep (1000 * 2 ^ (a + 1)) (emit (Warn_DownloadError (a + 1) mx msg (2 ^ (a + 1))) s)"]
        Cons.prems(1) r0 Error True
      show ?thesis by (simp add: Let_def)
    qed
  qed
qed





text \<open>
  Claim C7: an item that passes the filters and has an image whose download only raises,
  with at least four generic failures: \<open>download_with_retries\<close> returns \<open>None\<close>; the
  item's record is in the log, no image is added, and the loop goes on with the next
  event and the count raised by one; when the scan returns, the record is still in the
  log and the count is at least one more than before.
\<close>

theorem exhausted_download_keeps_item:
  assumes "msg_id msg \<notin> seen_ids" and "\<not> before_since since (item_date today msg)"
    and "\<not> from_until until (item_date today msg)" and "is_image msg"
    and "\<forall>r0\<in>set (dl_script msg). is_raise r0"
    and "default_max_retries \<le> length (filter is_generic (dl_script msg))"
  shows "(\<forall>mid dest s0. \<exists>s2. download_with_retries (dl_script msg) mid dest default_max_retries 0 s0 = Some (None, s2)) \<and>
     (\<exists>s1. persist_item sanitized msg (item_date today msg) s = Some s1 \<and>
        log_of s1 (isoformat (item_date today msg)) (sanitized @ ''.json'') =
          log_of s (isoformat (item_date today msg)) (sanitized @ ''.json'') @ [Parsed (message_to_serializable msg)] \<and>
        images s1 = images s \<and>
        scan_loop sanitized seen_ids since until today (Yield (Some msg) # feed) count s =
          scan_loop sanitized seen_ids since until today feed (count + 1)
            (if (count + 1) mod 50 = 0 then sleep 300 s1 else s1)) \<and>
     (\<forall>r s'. scan_loop sanitized seen_ids since until today (Yield (Some msg) # feed) count s = Some (r, s') \<longrightarrow>
        Parsed (message_to_serializable msg) \<in> set (log_of s' (isoformat (item_date today msg)) (sanitized @ ''.json'')) \<and>
        (\<forall>n. r = Inr n \<longrightarrow> count + 1 \<le> n))"
proof -
  let ?d = "item_date today msg"
  let ?f = "sanitized @ ''.json''"
  have dl: "\<exists>s2. download_with_retries (dl_script msg) mid dest default_max_retries 0 s0 = Some (None, s2) \<and>
               images s2 = images s0" for mid dest s0
    using exhausted_returns_None [OF assms(5), of default_max_retries 0 mid dest s0] assms(6) by simp
  let ?sp = "append_line (isoformat ?d, ?f) (Parsed (message_to_serializable msg)) (ensure_path (isoformat ?d) s)"
  from dl [of "msg_id msg" "(sanitized, image_dest ?sp sanitized msg (isoformat ?d))" ?sp]
  obtain s2 where s2: "download_with_retries (dl_script msg) (msg_id msg)
        (sanitized, image_dest ?sp sanitized msg (isoformat ?d)) default_max_retries 0 ?sp = Some (None, s2)"
      "images s2 = images ?sp" by blast
  let ?s1 = "emit (Warn_ImageFailed (msg_id msg)) s2"
  have p: "persist_item sanitized msg ?d s = Some ?s1"
    using s2(1) assms(4) by (simp add: persist_item_def fetch_image_def Let_def)
  have img: "images ?s1 = images s"
    using s2(2) by (simp add: append_line_def ensure_path_def)
  have lg: "log_of ?s1 (isoformat ?d) ?f = log_of s (isoformat ?d) ?f @ [Parsed (message_to_serializable msg)]"
    using log_of_upd [OF persist_item_logs(1) [OF p], of "isoformat ?d"] by simp
  have step: "scan_loop sanitized seen_ids since until today (Yield (Some msg) # feed) count s =
          scan_loop sanitized seen_ids since until today feed (count + 1)
            (if (count + 1) mod 50 = 0 then sleep 300 ?s1 else ?s1)"
    using assms(1-3) p by simp
  have fin: "Parsed (message_to_serializable msg) \<in> set (log_of s' (isoformat ?d) ?f) \<and>
        (\<forall>n. r = Inr n \<longrightarrow> count + 1 \<le> n)"
    if run: "scan_loop sanitized seen_ids since until today (Yield (Some msg) # feed) count s = Some (r, s')" for r s'
  proof -
    have sel: "selected seen_ids since until today (Yield (Some msg) # feed) =
        msg # selected seen_ids since until today feed"
      using assms(1-3) by simp
    from scan_loop_logs [OF run, of "isoformat ?d"] sel
    have "Parsed (message_to_serializable msg) \<in> set (log_of s' (isoformat ?d) ?f)"
      by (simp add: day_lines_def)
    moreover from scan_loop_result [OF run]
    have "r = scan_result (raised seen_ids since today (Yield (Some msg) # feed))
               (count + length (msg # selected seen_ids since until today feed))"
      by (simp only: sel)
    then have "\<forall>n. r = Inr n \<longrightarrow> count + 1 \<le> n"
      by (cases "raised seen_ids since today (Yield (Some msg) # feed)") (auto simp: scan_result_def)
    ultimately show ?thesis by blast
  qed
  from dl p img lg step fin show ?thesis by blast
qed

lemma failing_scan:
  "scan_loop ''ch1'' {} None None (Date 2025 6 15) failing_feed 0 empty_state = Some (Inr 2, failing_final)"
  by (simp add: failing_feed_def failing_script_def failing_final_def photo_msg_def scan_eval
      fetch_image_def image_dest_def free_dest.simps default_max_retries_def)

theorem exhausted_download_keeps_item_witness:
  "msg_id (photo_msg 7 (Some (Date 2025 6 3)) failing_script) \<notin> {} \<and>
   is_image (photo_msg 7 (Some (Date 2025 6 3)) failing_script) \<and>
   length (filter is_generic (dl_script (photo_msg 7 (Some (Date 2025 6 3)) failing_script))) = 4 \<and>
   scan_loop ''ch1'' {} None None (Date 2025 6 15) failing_feed 0 empty_state = Some (Inr 2, failing_final) \<and>
   Parsed (message_to_serializable (photo_msg 7 (Some (Date 2025 6 3)) failing_script))
     \<in> set (log_of failing_final ''2025-06-03'' ''ch1.json'') \<and>
   images failing_final = []"
proof -
  let ?m = "photo_msg 7 (Some (Date 2025 6 3)) failing_script"
  have h1: "msg_id ?m \<notin> {}" by simp
  have h2: "\<not> before_since None (item_date (Date 2025 6 15) ?m)" by (simp add: before_since_def)
  have h3: "\<not> from_until None (item_date (Date 2025 6 15) ?m)" by (simp add: from_until_def)
  have h4: "is_image ?m" by (simp add: is_image_def photo_msg_def)
  have h5: "\<forall>r0\<in>set (dl_script ?m). is_raise r0" by (simp add: photo_msg_def failing_script_def)
  have n: "length (filter is_generic (dl_script ?m)) = 4" by (simp add: photo_msg_def failing_script_def)
  then have h6: "default_max_retries \<le> length (filter is_generic (dl_script ?m))"
    by (simp add: default_max_retries_def)
  have iso: "isoformat (item_date (Date 2025 6 15) ?m) = ''2025-06-03''"
    by (simp add: photo_msg_def scan_eval)
  have run: "scan_loop ''ch1'' {} None None (Date 2025 6 15)
      (Yield (Some ?m) # [Yield (Some (text_msg 6 (Some (Date 2025 6 3))))]) 0 empty_state
      = Some (Inr 2, failing_final)"
    using failing_scan by (simp add: failing_feed_def)
  from exhausted_download_keeps_item [OF h1 h2 h3 h4 h5 h6, where sanitized = "''ch1''"
      and feed = "[Yield (Some (text_msg 6 (Some (Date 2025 6 3))))]" and count = 0 and s = empty_state] run iso
  have "Parsed (message_to_serializable ?m) \<in> set (log_of failing_final ''2025-06-03'' ''ch1.json'')"
    by auto
  moreover have "images failing_final = []" by (simp add: failing_final_def)
  ultimately show ?thesis using h1 h4 n failing_scan by blast
qed

section \<open>The loop over the channels\<close>

lemma logs_extend_refl: "logs_extend s s"
  by (simp add: logs_extend_def)

lemma logs_extend_trans: "logs_extend s s1 \<Longrightarrow> logs_extend s1 s2 \<Longrightarrow> logs_extend s s2"
proof -
  assume a: "logs_extend s s1" and b: "logs_extend s1 s2"
  show ?thesis unfolding logs_extend_def
  proof (intro allI)
    fix dname f
    from a obtain m1 where "log_of s1 dname f = log_of s dname f @ m1" unfolding logs_extend_def by blast
    moreover from b obtain m2 where "log_of s2 dname f = log_of s1 dname f @ m2" unfolding logs_extend_def by blast
    ultimately have "log_of s2 dname f = log_of s dname f @ (m1 @ m2)" by simp
    then show "\<exists>more. log_of s2 dname f = log_of s dname f @ more" by blast
  qed
qed

lemma logs_extend_same: "logs s' = logs s \<Longrightarrow> logs_extend s s'"
  by (simp add: logs_extend_def log_of_def)

lemma scrape_channel_extends:
  assumes "scrape_channel e channel limit incremental since until s = Some (r, s')"
  shows "logs_extend s s'"
  unfolding logs_extend_def
proof (intro allI)
  fix dname f
  show "\<exists>more. log_of s' dname f = log_of s dname f @ more"
  proof (cases "f = sanitize_filename channel @ ''.json''")
    case True
    with scrape_channel_logs [OF assms, of dname] show ?thesis by blast
  next
    case False
    from scrape_channel_frame(4) [OF assms False, of dname]
    have "log_of s' dname f = log_of s dname f @ []" by (simp add: log_of_def)
    then show ?thesis by blast
  qed
qed

lemma take_yields_subset: "set (take_yields n feed) \<subseteq> set feed"
proof (induction n feed rule: take_yields.induct)
  case (1 n)
  then show ?case by simp
next
  case (2 n ev feed)
  show ?case
  proof (cases "n = 0")
    case True
    then show ?thesis by simp
  next
    case False
    with "2.IH" show ?thesis by (cases ev) auto
  qed
qed

lemma iter_messages_subset: "set (iter_messages feed limit) \<subseteq> set feed"
  using take_yields_subset by (cases limit) (auto simp: iter_messages_def)

lemma raised_mem: "raised seen_ids since today feed = Some ex \<Longrightarrow> Raise ex \<in> set feed"
  by (induction seen_ids since today feed rule: raised.induct) (auto split: if_splits)

lemma raised_none: "\<forall>ex. Raise ex \<notin> set feed \<Longrightarrow> raised seen_ids since today feed = None"
  by (induction seen_ids since today feed rule: raised.induct) auto

lemma scrape_channel_returns:
  assumes "downloads_settle e"
  shows "\<exists>s'. scrape_channel e channel limit incremental since until s =
     Some (scan_result
             (raised (if incremental then load_seen_ids s channel else {}) since (date_today e)
                (iter_messages (provider e (iter_calls s) channel) limit))
             (length (selected (if incremental then load_seen_ids s channel else {}) since until (date_today e)
                (iter_messages (provider e (iter_calls s) channel) limit))), s')"
proof -
  let ?seen = "if incremental then load_seen_ids s channel else {}"
  let ?feed = "iter_messages (provider e (iter_calls s) channel) limit"
  have "fetchable m" if "m \<in> set (selected ?seen since until (date_today e) ?feed)" for m
  proof -
    from selected_mem [OF that] have "Yield (Some m) \<in> set ?feed" by blast
    with iter_messages_subset have "Yield (Some m) \<in> set (provider e (iter_calls s) channel)" by blast
    with assms show ?thesis unfolding downloads_settle_def by blast
  qed
  then have "\<forall>m \<in> set (selected ?seen since until (date_today e) ?feed). fetchable m" by blast
  from scan_loop_returns [OF this, of "sanitize_filename channel" 0 "s\<lparr>iter_calls := iter_calls s + 1\<rparr>"]
  obtain s1 where "scan_loop (sanitize_filename channel) ?seen since until (date_today e) ?feed 0
      (s\<lparr>iter_calls := iter_calls s + 1\<rparr>) =
      Some (scan_result (raised ?seen since (date_today e) ?feed)
              (0 + length (selected ?seen since until (date_today e) ?feed)), s1)" by blast
  then show ?thesis
    by (cases "raised ?seen since (date_today e) ?feed")
       (auto simp: scrape_channel_def Let_def scan_result_def)
qed

text \<open>One round of the loop over the channels.\<close>

lemma run_channels_step:
  assumes "run_channels e a since_date until_date (ch # chs) m s = Some (Inr m', s')"
  shows "\<exists>n st s1. run_channels e a since_date until_date chs (set_result ch n st m) s1 = Some (Inr m', s') \<and>
           manifests s1 = manifests s \<and> clock s \<le> clock s1 \<and> logs_extend s s1"
proof -
  let ?scrape = "\<lambda>s. scrape_channel e ch (args_limit a) (args_incremental a) since_date until_date s"
  from assms obtain r1 s1 where first: "?scrape s = Some (r1, s1)"
    by (cases "?scrape s") auto
  note f1 = scrape_channel_frame [OF first] scrape_channel_extends [OF first]
  show ?thesis
  proof (cases r1)
    case (Inr n)
    with first assms have "run_channels e a since_date until_date chs (set_result ch n ''ok'' m) s1 = Some (Inr m', s')" by simp
    with f1 show ?thesis by blast
  next
    case (Inl ex)
    show ?thesis
    proof (cases ex)
      case (Error msg)
      let ?s2 = "emit (Exception_Scraping ch msg) s1"
      from Inl Error first assms
      have "run_channels e a since_date until_date chs (set_result ch 0 (''error:'' @ msg) m) ?s2 = Some (Inr m', s')" by simp
      moreover have "manifests ?s2 = manifests s" using f1 by simp
      moreover have "clock s \<le> clock ?s2" using f1 by simp
      moreover have "logs_extend s ?s2"
      proof -
        have "logs_extend s1 ?s2" by (rule logs_extend_same) simp
        with f1(5) show ?thesis using logs_extend_trans by blast
      qed
      ultimately show ?thesis by blast
    next
      case (FloodWaitError secs)
      let ?s2 = "sleep (1000 * (flood_seconds secs + 1)) (emit (Warn_RunFloodWait (flood_seconds secs + 1)) s1)"
      from Inl FloodWaitError first assms obtain n s3 where
        second: "?scrape ?s2 = Some (Inr n, s3)" and
        rest: "run_channels e a since_date until_date chs (set_result ch n ''ok_after_wait'' m) s3 = Some (Inr m', s')"
        by (auto simp: Let_def split: option.splits sum.splits)
      note f2 = scrape_channel_frame [OF second] scrape_channel_extends [OF second]
      have "manifests s3 = manifests s" using f1 f2 by simp
      moreover have "clock s \<le> clock s3" using f1(3) f2(3) by simp
      moreover have "logs_extend s s3"
      proof -
        have "logs_extend s1 ?s2" by (rule logs_extend_same) simp
        with f1(5) f2(5) show ?thesis using logs_extend_trans by blast
      qed
      ultimately show ?thesis using rest by blast
    qed
  qed
qed

lemma set_result_fields:
  "run_id (set_result ch n st m) = run_id m" "m_channels (set_result ch n st m) = m_channels m"
  "started_at (set_result ch n st m) = started_at m" "finished_at (set_result ch n st m) = finished_at m"
  "m_limit (set_result ch n st m) = m_limit m" "m_incremental (set_result ch n st m) = m_incremental m"
  "m_since (set_result ch n st m) = m_since m" "m_until (set_result ch n st m) = m_until m"
  by (simp_all add: set_result_def)

lemma run_channels_frame:
  "run_channels e a since_date until_date chs m s = Some (Inr m', s') \<Longrightarrow>
     manifests s' = manifests s \<and> clock s \<le> clock s' \<and> logs_extend s s' \<and>
     run_id m' = run_id m \<and> m_channels m' = m_channels m \<and> started_at m' = started_at m \<and>
     finished_at m' = finished_at m \<and>
     (\<forall>ch. ch \<notin> set chs \<longrightarrow> map_of (results m') ch = map_of (results m) ch) \<and>
     (distinct chs \<and> set chs \<inter> set (map fst (results m)) = {} \<longrightarrow>
        map fst (results m') = map fst (results m) @ chs)"
proof (induction chs arbitrary: m s)
  case Nil
  then show ?case by (simp add: logs_extend_refl)
next
  case (Cons ch chs)
  from run_channels_step [OF Cons.prems] obtain n st s1 where
    rest: "run_channels e a since_date until_date chs (set_result ch n st m) s1 = Some (Inr m', s')" and
    fr: "manifests s1 = manifests s" "clock s \<le> clock s1" "logs_extend s s1" by blast
  note ih = Cons.IH [OF rest]
  have r1: "map_of (results (set_result ch n st m)) = (map_of (results m))(ch \<mapsto> \<lparr>processed = n, status = st\<rparr>)"
    by (simp add: set_result_def update_conv')
  have k1: "map fst (results (set_result ch n st m)) =
      (if ch \<in> set (map fst (results m)) then map fst (results m) else map fst (results m) @ [ch])"
    by (simp add: set_result_def update_keys)
  have a: "manifests s' = manifests s" using ih fr by simp
  have b: "clock s \<le> clock s'" using ih fr by simp
  have c: "logs_extend s s'" using ih fr logs_extend_trans by blast
  have d: "run_id m' = run_id m \<and> m_channels m' = m_channels m \<and> started_at m' = started_at m \<and>
     finished_at m' = finished_at m" using ih by (simp add: set_result_fields)
  have f: "\<forall>c. c \<notin> set (ch # chs) \<longrightarrow> map_of (results m') c = map_of (results m) c"
    using ih r1 by simp
  have g: "distinct (ch # chs) \<and> set (ch # chs) \<inter> set (map fst (results m)) = {} \<longrightarrow>
        map fst (results m') = map fst (results m) @ ch # chs"
  proof
    assume h: "distinct (ch # chs) \<and> set (ch # chs) \<inter> set (map fst (results m)) = {}"
    then have k2: "map fst (results (set_result ch n st m)) = map fst (results m) @ [ch]"
      using k1 by auto
    with h have "distinct chs \<and> set chs \<inter> set (map fst (results (set_result ch n st m))) = {}" by auto
    with ih k2 show "map fst (results m') = map fst (results m) @ ch # chs" by simp
  qed
  from a b c d f g show ?case by blast
qed

lemma run_channels_returns:
  assumes "downloads_settle e" and "retry_quiet e"
  shows "\<exists>m' s'. run_channels e a since_date until_date chs m s = Some (Inr m', s')"
proof (induction chs arbitrary: m s)
  case Nil
  then show ?case by simp
next
  case (Cons ch chs)
  let ?scrape = "\<lambda>s. scrape_channel e ch (args_limit a) (args_incremental a) since_date until_date s"
  let ?seen = "\<lambda>s. if args_incremental a then load_seen_ids s ch else {}"
  let ?feed = "\<lambda>s. iter_messages (provider e (iter_calls s) ch) (args_limit a)"
  from scrape_channel_returns [OF assms(1), of ch "args_limit a" "args_incremental a" since_date until_date s]
  obtain s1 where first: "?scrape s = Some (scan_result (raised (?seen s) since_date (date_today e) (?feed s))
       (length (selected (?seen s) since_date until_date (date_today e) (?feed s))), s1)" by blast
  show ?case
  proof (cases "raised (?seen s) since_date (date_today e) (?feed s)")
    case None
    with first Cons.IH show ?thesis by (simp add: scan_result_def)
  next
    case (Some ex)
    show ?thesis
    proof (cases ex)
      case (Error msg)
      with Some first Cons.IH show ?thesis by (simp add: scan_result_def)
    next
      case (FloodWaitError secs)
      let ?s2 = "sleep (1000 * (flood_seconds secs + 1)) (emit (Warn_RunFloodWait (flood_seconds secs + 1)) s1)"
      from Some FloodWaitError have r1: "?scrape s = Some (Inl (FloodWaitError secs), s1)"
        using first by (simp add: scan_result_def)
      from raised_mem [OF Some] iter_messages_subset FloodWaitError
      have "Raise (FloodWaitError secs) \<in> set (provider e (iter_calls s) ch)" by blast
      with assms(2) have quiet: "\<forall>x. Raise x \<notin> set (provider e (Suc (iter_calls s)) ch)"
        unfolding retry_quiet_def by blast
      have ic: "iter_calls ?s2 = Suc (iter_calls s)"
        using scrape_channel_frame(2) [OF r1] by simp
      have "\<forall>x. Raise x \<notin> set (?feed ?s2)"
        using quiet ic iter_messages_subset [of "provider e (Suc (iter_calls s)) ch" "args_limit a"] by auto
      then have none: "raised (?seen ?s2) since_date (date_today e) (?feed ?s2) = None"
        by (rule raised_none)
      from scrape_channel_returns [OF assms(1), of ch "args_limit a" "args_incremental a" since_date until_date ?s2]
        none
      obtain n s3 where second: "?scrape ?s2 = Some (Inr n, s3)"
        by (auto simp: scan_result_def)
      from Cons.IH [of "set_result ch n ''ok_after_wait'' m" s3] r1 second
      show ?thesis by (simp add: Let_def)
    qed
  qed
qed

lemma fromkeys_aux:
  "distinct acc \<Longrightarrow>
     distinct (foldl (\<lambda>acc x. if x \<in> set acc then acc else acc @ [x]) acc xs) \<and>
     set (foldl (\<lambda>acc x. if x \<in> set acc then acc else acc @ [x]) acc xs) = set acc \<union> set xs"
  by (induction xs arbitrary: acc) auto

lemma fromkeys_distinct: "distinct (fromkeys xs)" and fromkeys_set: "set (fromkeys xs) = set xs"
  using fromkeys_aux [of "[]" xs] by (simp_all add: fromkeys_def)

section \<open>The run and its manifest\<close>

lemma sanitize_bad: "sanitize_filename ''bad'' = ''bad''"
  by (simp add: sanitize_eval)

lemma sanitize_slow: "sanitize_filename ''slow'' = ''slow''"
  by (simp add: sanitize_eval)

lemmas run_eval = scrape_channel_def iter_messages_def scenario_D_env_def env_with_def scenario_D_provider_def
  args_for_def flood_seconds_def set_result_def manifest_for_def sanitize_bad sanitize_slow



lemma read_channels_args: "read_channels (env_with p) (args_for [''bad'', ''slow'']) = [''bad'', ''slow'']"
  by (simp add: read_channels_def env_with_def args_for_def fromkeys_def)

lemmas main_eval = main_def parse_date_arg_def read_channels_def fromkeys_def startswith_def

lemma scenario_D_main:
  "main scenario_D_env (args_for [''bad'', ''slow'']) empty_state = Some (Returned, scenario_D_final)"
  by (simp add: main_eval run_eval scenario_D_results_def scenario_D_final_def scan_eval)



lemma fromkeys_append_set: "set (fromkeys (xs @ ys)) = set xs \<union> set ys"
  by (simp add: fromkeys_set)

lemma read_channels_covers: "set (args_channels a) \<subseteq> set (read_channels e a)"
  unfolding read_channels_def Let_def fromkeys_append_set by (rule Un_upper2)

text \<open>
  Where the run does write its manifest: with the credentials set, dates that parse, a
  client that connects and disconnects, at least one channel, image downloads that
  return, and no exception in a scan repeated after a rate limit, \<open>main\<close> returns and
  has written exactly one manifest, under the run id, with one entry for each channel
  requested, in order; \<open>started_at\<close> and \<open>finished_at\<close> are the clock before the first scan
  and after the last.
\<close>

lemma run_writes_one_manifest:
  assumes "api_id e \<noteq> 0" and "api_hash e \<noteq> []"
    and "parse_date_arg e (args_since a) = Inr since_date"
    and "parse_date_arg e (args_until a) = Inr until_date"
    and "client_start e = None" and "client_disconnect e = None"
    and "read_channels e a \<noteq> []"
    and "downloads_settle e" and "retry_quiet e"
  shows "\<exists>m s'. main e a s = Some (Returned, s') \<and>
     manifests s' = (manifests s)(clock s div 1000 \<mapsto> m) \<and>
     run_id m = clock s div 1000 \<and> m_channels m = read_channels e a \<and>
     map fst (results m) = read_channels e a \<and>
     set (args_channels a) \<subseteq> set (map fst (results m)) \<and>
     started_at m = clock s \<and> finished_at m = Some (clock s') \<and> clock s \<le> clock s'"
proof -
  let ?chs = "read_channels e a"
  let ?rid = "clock s div 1000"
  let ?s0 = "emit Info_Connected s"
  let ?m0 = "\<lparr>run_id = ?rid, m_channels = ?chs, m_limit = args_limit a, m_incremental = args_incremental a,
      m_since = args_since a, m_until = args_until a, started_at = clock s, results = [],
      finished_at = None\<rparr>"
  from run_channels_returns [OF assms(8,9), of a since_date until_date ?chs ?m0 ?s0]
  obtain m' s1 where run: "run_channels e a since_date until_date ?chs ?m0 ?s0 = Some (Inr m', s1)" by blast
  note fr = run_channels_frame [OF run]
  have d: "distinct ?chs" by (simp add: read_channels_def Let_def fromkeys_distinct)
  with fr have keys: "map fst (results m') = ?chs" by simp
  have sub: "set (args_channels a) \<subseteq> set ?chs"
    by (rule read_channels_covers)
  let ?m = "m'\<lparr>finished_at := Some (clock s1)\<rparr>"
  let ?s' = "emit Info_Disconnected
               (emit (Info_ManifestSaved ?rid) (s1\<lparr>manifests := (manifests s1)(?rid \<mapsto> ?m)\<rparr>))"
  have mn: "main e a s = Some (Returned, ?s')"
    using assms(1-7) run by (simp add: main_def Let_def del: run_channels.simps)
  have "manifests ?s' = (manifests s)(?rid \<mapsto> ?m)" using fr by simp
  moreover have "run_id ?m = ?rid" "m_channels ?m = ?chs" "started_at ?m = clock s" using fr by simp_all
  moreover have "map fst (results ?m) = ?chs" using keys by simp
  moreover have "set (args_channels a) \<subseteq> set (map fst (results ?m))" using keys sub by simp
  moreover have "finished_at ?m = Some (clock ?s')" by simp
  moreover have "clock s \<le> clock ?s'" using fr by simp
  ultimately show ?thesis using mn by blast
qed

text \<open>
  Claim C2: every run writes its manifest, whatever happens in the scans, a rate-limit
  exception included.  The scan that the \<open>FloodWaitError\<close> handler repeats after the wait
  is outside the \<open>try\<close>: in the run over \<open>good\<close> and \<open>slow\<close>, where the repeated scan of
  \<open>slow\<close> fails, the exception leaves \<open>main\<close>; no manifest is written, though the record
  of \<open>good\<close> is on disk.  The same failure at the first scan of a channel is caught and
  recorded in the manifest, as the run over \<open>bad\<close> and \<open>slow\<close> above shows.
\<close>

theorem unguarded_rescan_leaves_main:
  "main rescan_env (args_for [''good'', ''slow'']) empty_state = Some (Uncaught (Error ''boom''), rescan_final) \<and>
   manifests rescan_final = manifests empty_state \<and>
   log_of rescan_final ''2025-06-03'' ''good.json'' = log_lines [text_msg 8 (Some (Date 2025 6 3))]"
proof -
  have "sanitize_filename ''good'' = ''good''" by (simp add: sanitize_eval)
  then have "main rescan_env (args_for [''good'', ''slow'']) empty_state
      = Some (Uncaught (Error ''boom''), rescan_final)"
    by (simp add: main_eval scrape_channel_def iter_messages_def rescan_env_def env_with_def
        rescan_provider_def args_for_def flood_seconds_def set_result_def sanitize_slow rescan_final_def
        scan_eval)
  moreover have "manifests rescan_final = manifests empty_state"
    by (simp add: rescan_final_def empty_state_def)
  moreover have "log_of rescan_final ''2025-06-03'' ''good.json'' = log_lines [text_msg 8 (Some (Date 2025 6 3))]"
    by (simp add: rescan_final_def log_of_def)
  ultimately show ?thesis by blast
qed

text \<open>A date that does not parse ends \<open>main\<close> before it connects.\<close>

lemma bad_date_leaves_main:
  "main scenario_D_env ((args_for [''bad'', ''slow''])\<lparr>args_since := Some ''junk''\<rparr>) empty_state
     = Some (Uncaught (Error ''ValueError''), empty_state)"
  by (simp add: main_eval scenario_D_env_def env_with_def args_for_def)

end
